theory Spec2Isabelle
  imports Complex_Main "HOL-Library.Sublist"
begin

section \<open>Strings\<close>

text \<open>
  A Python \<open>str\<close> is modelled as a \<open>string\<close>, a list of characters with code points
  below 256. The functions of this section are the \<open>str\<close> methods the crawler and the
  URL functions of the standard library use.
\<close>

text \<open>\<open>s.split(c)\<close>: the pieces of \<open>s\<close> between the occurrences of \<open>c\<close>; never empty.\<close>

fun split :: "char \<Rightarrow> string \<Rightarrow> string list" where
  "split c [] = [[]]"
| "split c (x # xs) =
     (if x = c then [] # split c xs
      else (case split c xs of p # ps \<Rightarrow> (x # p) # ps | [] \<Rightarrow> [[x]]))"

text \<open>\<open>s.split(c, 1)\<close> for a string that contains \<open>c\<close>: the text before the first
  \<open>c\<close> and the text after it.\<close>

definition split1 :: "char \<Rightarrow> string \<Rightarrow> string \<times> string" where
  "split1 c s = (takeWhile (\<lambda>x. x \<noteq> c) s, drop 1 (dropWhile (\<lambda>x. x \<noteq> c) s))"

text \<open>\<open>c.join(parts)\<close>.\<close>

fun join :: "char \<Rightarrow> string list \<Rightarrow> string" where
  "join c [] = []"
| "join c [p] = p"
| "join c (p # q # ps) = p @ c # join c (q # ps)"

text \<open>\<open>s.rfind(c)\<close> for a string that contains \<open>c\<close>: the index of the last \<open>c\<close>.\<close>

definition rfind :: "char \<Rightarrow> string \<Rightarrow> nat" where
  "rfind c s = length s - Suc (length (takeWhile (\<lambda>x. x \<noteq> c) (rev s)))"

definition startswith :: "string \<Rightarrow> string \<Rightarrow> bool" where
  "startswith s p = prefix p s"

definition endswith :: "string \<Rightarrow> string \<Rightarrow> bool" where
  "endswith s p = suffix p s"

text \<open>\<open>s.lower()\<close> on code points below 256: the letters \<open>A\<close> to \<open>Z\<close> and the
  capital letters of Latin-1 (\<open>0xC0\<close> to \<open>0xDE\<close>, without the multiplication sign
  \<open>0xD7\<close>) move up by 32.\<close>

definition lower_char :: "char \<Rightarrow> char" where
  "lower_char c =
     (let n = (of_char c :: nat)
      in if (65 \<le> n \<and> n \<le> 90) \<or> (192 \<le> n \<and> n \<le> 222 \<and> n \<noteq> 215)
         then char_of (n + 32) else c)"

definition lower :: "string \<Rightarrow> string" where
  "lower s = map lower_char s"

definition is_ascii_alpha :: "char \<Rightarrow> bool" where
  "is_ascii_alpha c =
     (let n = (of_char c :: nat) in (65 \<le> n \<and> n \<le> 90) \<or> (97 \<le> n \<and> n \<le> 122))"

definition is_ascii_digit :: "char \<Rightarrow> bool" where
  "is_ascii_digit c = (let n = (of_char c :: nat) in 48 \<le> n \<and> n \<le> 57)"

definition is_hex_digit :: "char \<Rightarrow> bool" where
  "is_hex_digit c =
     (let n = (of_char c :: nat)
      in (48 \<le> n \<and> n \<le> 57) \<or> (65 \<le> n \<and> n \<le> 70) \<or> (97 \<le> n \<and> n \<le> 102))"

section \<open>The URL functions of \<open>urllib.parse\<close>\<close>

text \<open>
  The crawler resolves and normalises links with \<open>urljoin\<close>, \<open>urlparse\<close>,
  \<open>urlunparse\<close> and \<open>urldefrag\<close> of Python's standard library. They are modelled
  after \<open>Lib/urllib/parse.py\<close> of CPython 3.11.10, for \<open>str\<close> arguments and with
  \<open>allow_fragments\<close> at its default \<open>True\<close>, which is how the crawler calls them.
  \<open>urlsplit\<close> raises \<open>ValueError\<close> on a malformed bracketed host; the exception is the
  \<open>Inl\<close> branch of the result.
\<close>

datatype error = ValueError

definition uses_relative :: "string list" where
  "uses_relative = ['''', ''ftp'', ''http'', ''gopher'', ''nntp'', ''imap'',
     ''wais'', ''file'', ''https'', ''shttp'', ''mms'',
     ''prospero'', ''rtsp'', ''rtsps'', ''rtspu'', ''sftp'',
     ''svn'', ''svn+ssh'', ''ws'', ''wss'']"

definition uses_netloc :: "string list" where
  "uses_netloc = ['''', ''ftp'', ''http'', ''gopher'', ''nntp'', ''telnet'',
     ''imap'', ''wais'', ''file'', ''mms'', ''https'', ''shttp'',
     ''snews'', ''prospero'', ''rtsp'', ''rtsps'', ''rtspu'', ''rsync'',
     ''svn'', ''svn+ssh'', ''sftp'', ''nfs'', ''git'', ''git+ssh'',
     ''ws'', ''wss'']"

definition uses_params :: "string list" where
  "uses_params = ['''', ''ftp'', ''hdl'', ''prospero'', ''http'', ''imap'',
     ''https'', ''shttp'', ''rtsp'', ''rtsps'', ''rtspu'', ''sip'',
     ''sips'', ''mms'', ''sftp'', ''tel'']"

definition scheme_chars :: "char \<Rightarrow> bool" where
  "scheme_chars c = (is_ascii_alpha c \<or> is_ascii_digit c \<or> c \<in> set ''+-.'')"

text \<open>The characters \<open>urlsplit\<close> strips (C0 controls and space) and the ones it deletes
  everywhere (tab, carriage return, newline).\<close>

definition c0_control_or_space :: "char \<Rightarrow> bool" where
  "c0_control_or_space c = ((of_char c :: nat) \<le> 32)"

definition unsafe_url_byte :: "char \<Rightarrow> bool" where
  "unsafe_url_byte c = ((of_char c :: nat) \<in> {9, 13, 10})"

definition remove_unsafe :: "string \<Rightarrow> string" where
  "remove_unsafe s = filter (\<lambda>c. \<not> unsafe_url_byte c) s"

definition lstrip_c0 :: "string \<Rightarrow> string" where
  "lstrip_c0 s = dropWhile c0_control_or_space s"

definition strip_c0 :: "string \<Rightarrow> string" where
  "strip_c0 s = rev (dropWhile c0_control_or_space (rev (dropWhile c0_control_or_space s)))"

subsection \<open>Bracketed hosts\<close>

text \<open>
  \<open>_check_bracketed_host\<close> accepts an IPvFuture literal (the regular expression
  \<open>\Av[a-fA-F0-9]+\..+\Z\<close>) or whatever \<open>ipaddress.ip_address\<close> reads as an IPv6
  address. Only acceptance matters here, so the address parsers are modelled as
  predicates.
\<close>

definition decimal :: "string \<Rightarrow> nat" where
  "decimal s = foldl (\<lambda>n c. 10 * n + (of_char c - 48)) 0 s"

definition parse_octet_ok :: "string \<Rightarrow> bool" where
  "parse_octet_ok s =
     (s \<noteq> [] \<and> list_all is_ascii_digit s \<and> length s \<le> 3
      \<and> \<not> (s \<noteq> ''0'' \<and> hd s = CHR ''0'') \<and> decimal s \<le> 255)"

definition ipv4_address_ok :: "string \<Rightarrow> bool" where
  "ipv4_address_ok s =
     (CHR ''/'' \<notin> set s \<and> s \<noteq> [] \<and> length (split CHR ''.'' s) = 4
      \<and> list_all parse_octet_ok (split CHR ''.'' s))"

definition parse_hextet_ok :: "string \<Rightarrow> bool" where
  "parse_hextet_ok s = (list_all is_hex_digit s \<and> length s \<le> 4 \<and> s \<noteq> [])"

text \<open>The indices \<open>i\<close> with \<open>1 \<le> i < len(parts) - 1\<close> whose part is empty: the
  candidates for \<open>skip_index\<close>.\<close>

definition empty_inner_parts :: "string list \<Rightarrow> nat list" where
  "empty_inner_parts parts = filter (\<lambda>i. parts ! i = []) [1 ..< length parts - 1]"

text \<open>\<open>IPv6Address._ip_int_from_string\<close>, as a predicate. An IPv4 suffix is replaced
  by the two hextets printed from it, which are always well-formed; the model puts
  \<open>0\<close> for each.\<close>

definition ipv6_int_from_string_ok :: "string \<Rightarrow> bool" where
  "ipv6_int_from_string_ok ip_str =
     (let parts0 = split CHR '':'' ip_str in
      if ip_str = [] \<or> length parts0 < 3 then False
      else if CHR ''.'' \<in> set (last parts0) \<and> \<not> ipv4_address_ok (last parts0) then False
      else
        let parts = (if CHR ''.'' \<in> set (last parts0)
                     then butlast parts0 @ [''0'', ''0''] else parts0)
        in if length parts > 9 then False
           else (case empty_inner_parts parts of
               [] \<Rightarrow> length parts = 8 \<and> hd parts \<noteq> [] \<and> last parts \<noteq> []
                      \<and> list_all parse_hextet_ok parts
             | [skip_index] \<Rightarrow>
                 (let hi0 = skip_index;
                      lo0 = length parts - skip_index - 1;
                      parts_hi = (if hd parts = [] then hi0 - 1 else hi0);
                      parts_lo = (if last parts = [] then lo0 - 1 else lo0)
                  in \<not> (hd parts = [] \<and> parts_hi \<noteq> 0)
                     \<and> \<not> (last parts = [] \<and> parts_lo \<noteq> 0)
                     \<and> parts_hi + parts_lo < 8
                     \<and> list_all parse_hextet_ok (take parts_hi parts)
                     \<and> list_all parse_hextet_ok (drop (length parts - parts_lo) parts))
             | _ \<Rightarrow> False))"

text \<open>\<open>IPv6Address(address)\<close> for a string: no slash, an optional scope id after
  \<open>%\<close> that is neither empty nor contains another \<open>%\<close>.\<close>

definition ipv6_address_ok :: "string \<Rightarrow> bool" where
  "ipv6_address_ok s =
     (CHR ''/'' \<notin> set s
      \<and> (CHR ''%'' \<in> set s \<longrightarrow>
            snd (split1 CHR ''%'' s) \<noteq> [] \<and> CHR ''%'' \<notin> set (snd (split1 CHR ''%'' s)))
      \<and> ipv6_int_from_string_ok (takeWhile (\<lambda>x. x \<noteq> CHR ''%'') s))"

definition check_bracketed_host :: "string \<Rightarrow> bool" where
  "check_bracketed_host hostname =
     (if startswith hostname ''v''
      then (let digits = takeWhile is_hex_digit (tl hostname);
                rest = dropWhile is_hex_digit (tl hostname)
            in digits \<noteq> [] \<and> take 1 rest = ''.'' \<and> tl rest \<noteq> []
               \<and> char_of (10 :: nat) \<notin> set (tl rest))
      else \<not> ipv4_address_ok hostname \<and> ipv6_address_ok hostname)"

subsection \<open>Splitting and joining\<close>

text \<open>\<open>_splitnetloc(url, start)\<close>: the host part runs from \<open>start\<close> to the first of
  \<open>/\<close>, \<open>?\<close> and \<open>#\<close>.\<close>

definition splitnetloc :: "string \<Rightarrow> nat \<Rightarrow> string \<times> string" where
  "splitnetloc url start =
     (takeWhile (\<lambda>c. c \<notin> set ''/?#'') (drop start url),
      dropWhile (\<lambda>c. c \<notin> set ''/?#'') (drop start url))"

text \<open>The scheme test of \<open>urlsplit\<close>: a colon that is not the first character, an
  ASCII letter in front, and only scheme characters before the colon.\<close>

definition has_scheme :: "string \<Rightarrow> bool" where
  "has_scheme url =
     (CHR '':'' \<in> set url \<and> takeWhile (\<lambda>x. x \<noteq> CHR '':'') url \<noteq> []
      \<and> is_ascii_alpha (hd url)
      \<and> list_all scheme_chars (takeWhile (\<lambda>x. x \<noteq> CHR '':'') url))"

text \<open>\<open>urlsplit(url, scheme)\<close> returns \<open>(scheme, netloc, path, query, fragment)\<close>.
  \<open>_checknetloc\<close> only rejects hosts with characters whose NFKC form contains one of
  \<open>/?#@:\<close>; no code point below 256 has such a form, so it does not appear.\<close>

definition urlsplit :: "string \<Rightarrow> string \<Rightarrow> error + (string \<times> string \<times> string \<times> string \<times> string)" where
  "urlsplit url0 scheme0 =
     (let url1 = remove_unsafe (lstrip_c0 url0);
          scheme1 = remove_unsafe (strip_c0 scheme0);
          scheme = (if has_scheme url1 then lower (takeWhile (\<lambda>x. x \<noteq> CHR '':'') url1)
                    else scheme1);
          url2 = (if has_scheme url1 then snd (split1 CHR '':'' url1) else url1);
          netloc = (if take 2 url2 = ''//'' then fst (splitnetloc url2 2) else []);
          url3 = (if take 2 url2 = ''//'' then snd (splitnetloc url2 2) else url2)
      in if (CHR ''['' \<in> set netloc \<and> CHR '']'' \<notin> set netloc)
            \<or> (CHR '']'' \<in> set netloc \<and> CHR ''['' \<notin> set netloc)
         then Inl ValueError
         else if CHR ''['' \<in> set netloc \<and> CHR '']'' \<in> set netloc
              \<and> \<not> check_bracketed_host
                    (takeWhile (\<lambda>x. x \<noteq> CHR '']'') (snd (split1 CHR ''['' netloc)))
         then Inl ValueError
         else
           let fragment = (if CHR ''#'' \<in> set url3 then snd (split1 CHR ''#'' url3) else []);
               url4 = (if CHR ''#'' \<in> set url3 then fst (split1 CHR ''#'' url3) else url3);
               query = (if CHR ''?'' \<in> set url4 then snd (split1 CHR ''?'' url4) else []);
               url5 = (if CHR ''?'' \<in> set url4 then fst (split1 CHR ''?'' url4) else url4)
           in Inr (scheme, netloc, url5, query, fragment))"

text \<open>\<open>_splitparams(url)\<close>: the parameters follow the first \<open>;\<close> of the last path
  segment.\<close>

definition splitparams :: "string \<Rightarrow> string \<times> string" where
  "splitparams url =
     (if CHR ''/'' \<in> set url
      then (let k = rfind CHR ''/'' url
            in if CHR '';'' \<notin> set (drop k url) then (url, [])
               else (take k url @ takeWhile (\<lambda>x. x \<noteq> CHR '';'') (drop k url),
                     drop 1 (dropWhile (\<lambda>x. x \<noteq> CHR '';'') (drop k url))))
      else if CHR '';'' \<in> set url then split1 CHR '';'' url
      else (butlast url, url))"

record parse_result =
  scheme :: string
  netloc :: string
  path :: string
  params :: string
  query :: string
  fragment :: string

definition urlparse :: "string \<Rightarrow> string \<Rightarrow> error + parse_result" where
  "urlparse url scheme0 =
     (case urlsplit url scheme0 of
        Inl e \<Rightarrow> Inl e
      | Inr (sch, nl, url1, q, frag) \<Rightarrow>
          (if sch \<in> set uses_params \<and> CHR '';'' \<in> set url1
           then Inr \<lparr>scheme = sch, netloc = nl, path = fst (splitparams url1),
                     params = snd (splitparams url1), query = q, fragment = frag\<rparr>
           else Inr \<lparr>scheme = sch, netloc = nl, path = url1,
                     params = [], query = q, fragment = frag\<rparr>))"

definition urlunsplit :: "string \<times> string \<times> string \<times> string \<times> string \<Rightarrow> string" where
  "urlunsplit components =
     (case components of (sch, nl, url0, q, frag) \<Rightarrow>
        (let url1 = (if nl \<noteq> [] \<or> (sch \<noteq> [] \<and> sch \<in> set uses_netloc) \<or> take 2 url0 = ''//''
                     then ''//'' @ nl @ (if url0 \<noteq> [] \<and> take 1 url0 \<noteq> ''/'' then CHR ''/'' # url0 else url0)
                     else url0);
             url2 = (if sch \<noteq> [] then sch @ '':'' @ url1 else url1);
             url3 = (if q \<noteq> [] then url2 @ ''?'' @ q else url2)
         in if frag \<noteq> [] then url3 @ ''#'' @ frag else url3))"

definition urlunparse :: "parse_result \<Rightarrow> string" where
  "urlunparse components =
     urlunsplit (scheme components, netloc components,
       (if params components \<noteq> [] then path components @ '';'' @ params components
        else path components),
       query components, fragment components)"

text \<open>The path merge of \<open>urljoin\<close>. \<open>segments[1:-1] = filter(None, segments[1:-1])\<close>
  drops the empty segments strictly between the first and the last one.\<close>

definition filter_inner :: "string list \<Rightarrow> string list" where
  "filter_inner segments =
     (if length segments < 2 then segments
      else hd segments # filter (\<lambda>seg. seg \<noteq> []) (butlast (tl segments)) @ [last segments])"

text \<open>The loop over the segments: \<open>..\<close> pops the last resolved segment (nothing, when
  there is none), \<open>.\<close> is skipped, anything else is appended.\<close>

fun resolve_segments :: "string list \<Rightarrow> string list \<Rightarrow> string list" where
  "resolve_segments resolved_path [] = resolved_path"
| "resolve_segments resolved_path (seg # segs) =
     (if seg = ''..'' then resolve_segments (butlast resolved_path) segs
      else if seg = ''.'' then resolve_segments resolved_path segs
      else resolve_segments (resolved_path @ [seg]) segs)"

definition urljoin :: "string \<Rightarrow> string \<Rightarrow> error + string" where
  "urljoin base url =
     (if base = [] then Inr url
      else if url = [] then Inr base
      else case urlparse base [] of
        Inl e \<Rightarrow> Inl e
      | Inr b \<Rightarrow>
         (case urlparse url (scheme b) of
            Inl e \<Rightarrow> Inl e
          | Inr u \<Rightarrow>
             if scheme u \<noteq> scheme b \<or> scheme u \<notin> set uses_relative then Inr url
             else if scheme u \<in> set uses_netloc \<and> netloc u \<noteq> [] then Inr (urlunparse u)
             else
               let nl = (if scheme u \<in> set uses_netloc then netloc b else netloc u)
               in if path u = [] \<and> params u = []
                  then Inr (urlunparse (u\<lparr>netloc := nl, path := path b, params := params b,
                              query := (if query u = [] then query b else query u)\<rparr>))
                  else
                    let base_parts0 = split CHR ''/'' (path b);
                        base_parts = (if last base_parts0 \<noteq> [] then butlast base_parts0
                                      else base_parts0);
                        segments = (if take 1 (path u) = ''/'' then split CHR ''/'' (path u)
                                    else filter_inner (base_parts @ split CHR ''/'' (path u)));
                        resolved0 = resolve_segments [] segments;
                        resolved_path = (if last segments \<in> {''.'', ''..''}
                                         then resolved0 @ [[]] else resolved0);
                        joined = join CHR ''/'' resolved_path
                    in Inr (urlunparse (u\<lparr>netloc := nl,
                              path := (if joined = [] then ''/'' else joined)\<rparr>))))"

text \<open>\<open>urldefrag(url)\<close> returns the URL without its fragment, and the fragment. A URL
  without \<open>#\<close> is returned as it is, unparsed.\<close>

definition urldefrag :: "string \<Rightarrow> error + (string \<times> string)" where
  "urldefrag url =
     (if CHR ''#'' \<in> set url
      then (case urlparse url [] of
              Inl e \<Rightarrow> Inl e
            | Inr p \<Rightarrow> Inr (urlunparse (p\<lparr>fragment := []\<rparr>), fragment p))
      else Inr (url, []))"

section \<open>The URL builder of the crawler\<close>

text \<open>\<open>build_absolute_url(current_url, href)\<close>: join, parse the joined URL, and when
  its query contains a \<open>?\<close> keep only the last piece of \<open>query.split('?')\<close> as the
  query.\<close>

definition build_absolute_url :: "string \<Rightarrow> string \<Rightarrow> error + string" where
  "build_absolute_url current_url href =
     (case urljoin current_url href of
        Inl e \<Rightarrow> Inl e
      | Inr joined_url \<Rightarrow>
         (case urlparse joined_url [] of
            Inl e \<Rightarrow> Inl e
          | Inr parsed_join \<Rightarrow>
             if CHR ''?'' \<in> set (query parsed_join)
             then (let correct_query = last (split CHR ''?'' (query parsed_join))
                   in Inr (urlunparse (parsed_join\<lparr>query := correct_query\<rparr>)))
             else Inr joined_url))"

section \<open>The environment\<close>

text \<open>
  The HTTP transport, the HTML parser, the clock and the file system are outside the
  program. They are an environment \<open>env\<close> over a world \<open>'w\<close> that the program cannot
  inspect: a GET answers with a response or raises a \<open>RequestException\<close> and may change
  the world, and so may a sleep and a file write. \<open>find_hrefs\<close> is
  \<open>soup.find_all('a', href=True)\<close> followed by \<open>link['href']\<close>: the \<open>href\<close> values of a
  page, in document order.
\<close>

text \<open>A response, as far as the crawler reads it: \<open>resp_text\<close> is \<open>response.text\<close>.\<close>

record response =
  status_code :: nat
  resp_text :: string

datatype get_outcome = Responded response | RequestException

record 'w env =
  session_get :: "'w \<Rightarrow> string \<Rightarrow> bool \<Rightarrow> nat \<Rightarrow> get_outcome \<times> 'w"
  sleep :: "'w \<Rightarrow> rat \<Rightarrow> 'w"
  write_file :: "'w \<Rightarrow> string \<Rightarrow> response \<Rightarrow> bool \<times> 'w"
  find_hrefs :: "string \<Rightarrow> string list"

text \<open>
  What the program does to its environment is recorded in a trace, oldest event first:
  \<^item> \<open>Crawling u\<close>: the log line \<open>Crawling page: u\<close> that precedes the fetch of a page;
  \<^item> \<open>Sleep d\<close>: \<open>time.sleep(d)\<close>, in seconds;
  \<^item> \<open>Get u stream timeout o\<close>: \<open>session.get(u, stream=..., timeout=...)\<close> and its outcome;
  \<^item> \<open>Found_PDF current u\<close>: the log line that precedes the download of \<open>u\<close>;
  \<^item> \<open>Write_File u file_path ok\<close>: \<open>download_pdf(u)\<close> opens \<open>file_path\<close> and writes the
    body to it; \<open>ok\<close> tells whether that went through without an exception.
\<close>

datatype event =
    Crawling string
  | Sleep rat
  | Get string bool nat get_outcome
  | Found_PDF string string
  | Write_File string string bool

section \<open>The fetcher\<close>

definition RETRIES :: nat where "RETRIES = 3"
definition BACKOFF_FACTOR :: nat where "BACKOFF_FACTOR = 1"
definition POLITE_DELAY_SECONDS :: rat where "POLITE_DELAY_SECONDS = 1 / 2"

text \<open>\<open>response.raise_for_status()\<close> of the requests library raises \<open>HTTPError\<close>, a
  \<open>RequestException\<close>, for the status codes from 400 to 599.\<close>

definition raise_for_status :: "response \<Rightarrow> bool" where
  "raise_for_status r = (400 \<le> status_code r \<and> status_code r < 600)"

text \<open>An attempt fails when the \<open>try\<close> block of \<open>make_request_with_retries\<close> ends in
  its \<open>except\<close> clause.\<close>

definition attempt_failed :: "get_outcome \<Rightarrow> bool" where
  "attempt_failed outcome =
     (case outcome of RequestException \<Rightarrow> True | Responded r \<Rightarrow> raise_for_status r)"

text \<open>The exponential back-off: \<open>sleep_time = BACKOFF_FACTOR * (2 ** attempt)\<close>.\<close>

definition sleep_time :: "nat \<Rightarrow> nat" where
  "sleep_time attempt = BACKOFF_FACTOR * 2 ^ attempt"

text \<open>The \<open>for attempt in range(RETRIES)\<close> loop, over the attempts still to make. The
  state is the world and the trace.\<close>

fun request_attempts ::
  "'w env \<Rightarrow> string \<Rightarrow> bool \<Rightarrow> nat \<Rightarrow> nat list \<Rightarrow> 'w \<times> event list
     \<Rightarrow> response option \<times> 'w \<times> event list" where
  "request_attempts env url stream timeout [] (w, tr) = (None, w, tr)"
| "request_attempts env url stream timeout (attempt # rest) (w, tr) =
     (case session_get env w url stream timeout of (outcome, w1) \<Rightarrow>
        (let tr1 = tr @ [Get url stream timeout outcome] in
         case outcome of
           Responded r \<Rightarrow>
             if \<not> raise_for_status r then (Some r, w1, tr1)
             else if attempt + 1 = RETRIES then (None, w1, tr1)
             else request_attempts env url stream timeout rest
                    (sleep env w1 (of_nat (sleep_time attempt)),
                     tr1 @ [Sleep (of_nat (sleep_time attempt))])
         | RequestException \<Rightarrow>
             if attempt + 1 = RETRIES then (None, w1, tr1)
             else request_attempts env url stream timeout rest
                    (sleep env w1 (of_nat (sleep_time attempt)),
                     tr1 @ [Sleep (of_nat (sleep_time attempt))])))"

definition make_request_with_retries ::
  "'w env \<Rightarrow> string \<Rightarrow> bool \<Rightarrow> nat \<Rightarrow> 'w \<times> event list \<Rightarrow> response option \<times> 'w \<times> event list" where
  "make_request_with_retries env url stream timeout io =
     request_attempts env url stream timeout [0 ..< RETRIES] io"

section \<open>The downloader\<close>

text \<open>\<open>os.path.basename\<close> and \<open>os.path.join\<close> on two components, as \<open>posixpath\<close> has
  them.\<close>

definition basename :: "string \<Rightarrow> string" where
  "basename p = rev (takeWhile (\<lambda>x. x \<noteq> CHR ''/'') (rev p))"

definition path_join :: "string \<Rightarrow> string \<Rightarrow> string" where
  "path_join a b =
     (if startswith b ''/'' then b
      else if a = [] \<or> endswith a ''/'' then a @ b
      else a @ ''/'' @ b)"

text \<open>\<open>download_pdf(session, pdf_url, download_folder)\<close>. Everything is inside
  \<open>try ... except Exception\<close>: a \<open>ValueError\<close> of \<open>urlparse\<close> and a failed write both
  give \<open>False\<close>.\<close>

definition download_pdf ::
  "'w env \<Rightarrow> string \<Rightarrow> string \<Rightarrow> 'w \<times> event list \<Rightarrow> bool \<times> 'w \<times> event list" where
  "download_pdf env pdf_url download_folder io =
     (case make_request_with_retries env pdf_url True 30 io of
        (None, io1) \<Rightarrow> (False, io1)
      | (Some resp, w1, tr1) \<Rightarrow>
          (case urlparse pdf_url [] of
             Inl e \<Rightarrow> (False, w1, tr1)
           | Inr parsed \<Rightarrow>
               (let filename = (if basename (path parsed) = [] then ''downloaded_file.pdf''
                                else basename (path parsed));
                    file_path = path_join download_folder filename
                in case write_file env w1 file_path resp of
                     (ok, w2) \<Rightarrow> (ok, w2, tr1 @ [Write_File pdf_url file_path ok]))))"

section \<open>The crawl engine\<close>

record 'w crawl_state =
  urls_to_visit :: "string list"
  visited_urls :: "string set"
  downloaded_pdf_urls :: "string set"
  world :: 'w
  trace :: "event list"

text \<open>An exception that nothing catches ends the crawl. The result then carries the
  exception and the state in which it was raised.\<close>

type_synonym 'w crawl_result = "(error \<times> 'w crawl_state) + 'w crawl_state"

definition state_of :: "'w crawl_result \<Rightarrow> 'w crawl_state" where
  "state_of r = (case r of Inl (e, s) \<Rightarrow> s | Inr s \<Rightarrow> s)"

text \<open>Lines 136 to 146: what the loop over the links does with one resolved link.\<close>

definition process_absolute_url ::
  "'w env \<Rightarrow> string \<Rightarrow> string \<Rightarrow> string \<Rightarrow> string \<Rightarrow> 'w crawl_state \<Rightarrow> 'w crawl_result" where
  "process_absolute_url env start_url download_folder current_url absolute_url s =
     (case urldefrag absolute_url of
        Inl e \<Rightarrow> Inl (e, s)
      | Inr (normalized_absolute_url, frag) \<Rightarrow>
          if endswith (lower absolute_url) ''.pdf''
          then (if absolute_url \<notin> downloaded_pdf_urls s
                then (case download_pdf env absolute_url download_folder
                             (world s, trace s @ [Found_PDF current_url absolute_url]) of
                        (ok, w1, tr1) \<Rightarrow>
                          Inr (s\<lparr>downloaded_pdf_urls :=
                                   (if ok then insert absolute_url (downloaded_pdf_urls s)
                                    else downloaded_pdf_urls s),
                                 world := w1, trace := tr1\<rparr>))
                else Inr s)
          else if startswith normalized_absolute_url start_url
                  \<and> normalized_absolute_url \<notin> visited_urls s
          then (if absolute_url \<notin> set (urls_to_visit s)
                then Inr (s\<lparr>urls_to_visit := urls_to_visit s @ [absolute_url]\<rparr>)
                else Inr s)
          else Inr s)"

text \<open>Lines 130 to 146: the loop over the \<open>href\<close> values of a page.\<close>

fun process_links ::
  "'w env \<Rightarrow> string \<Rightarrow> string \<Rightarrow> string \<Rightarrow> string list \<Rightarrow> 'w crawl_state \<Rightarrow> 'w crawl_result" where
  "process_links env start_url download_folder current_url [] s = Inr s"
| "process_links env start_url download_folder current_url (href # hrefs) s =
     (case build_absolute_url current_url href of
        Inl e \<Rightarrow> Inl (e, s)
      | Inr absolute_url \<Rightarrow>
          (case process_absolute_url env start_url download_folder current_url absolute_url s of
             Inl x \<Rightarrow> Inl x
           | Inr s1 \<Rightarrow> process_links env start_url download_folder current_url hrefs s1))"

text \<open>Lines 116 to 146: the body of the main loop for the URL just taken from the head
  of the frontier (\<open>s\<close> is the state after \<open>pop(0)\<close>).\<close>

definition crawl_page ::
  "'w env \<Rightarrow> string \<Rightarrow> string \<Rightarrow> string \<Rightarrow> 'w crawl_state \<Rightarrow> 'w crawl_result" where
  "crawl_page env start_url download_folder current_url s =
     (case urldefrag current_url of
        Inl e \<Rightarrow> Inl (e, s)
      | Inr (normalized_url, frag) \<Rightarrow>
          if normalized_url \<in> visited_urls s then Inr s
          else
            (case make_request_with_retries env current_url False 15
                    (sleep env (world s) POLITE_DELAY_SECONDS,
                     trace s @ [Crawling current_url, Sleep POLITE_DELAY_SECONDS]) of
               (None, w1, tr1) \<Rightarrow>
                 Inr (s\<lparr>visited_urls := insert normalized_url (visited_urls s),
                        world := w1, trace := tr1\<rparr>)
             | (Some resp, w1, tr1) \<Rightarrow>
                 process_links env start_url download_folder current_url
                   (find_hrefs env (resp_text resp))
                   (s\<lparr>visited_urls := insert normalized_url (visited_urls s),
                      world := w1, trace := tr1\<rparr>)))"

text \<open>The main loop, \<open>while urls_to_visit\<close>. It need not end, so it is a partial
  function: \<open>None\<close> is a crawl that runs forever.\<close>

partial_function (option) crawl_loop ::
  "'w env \<Rightarrow> string \<Rightarrow> string \<Rightarrow> 'w crawl_state \<Rightarrow> 'w crawl_result option" where
  "crawl_loop env start_url download_folder s =
     (case urls_to_visit s of
        [] \<Rightarrow> Some (Inr s)
      | current_url # rest \<Rightarrow>
          (case crawl_page env start_url download_folder current_url (s\<lparr>urls_to_visit := rest\<rparr>) of
             Inl x \<Rightarrow> Some (Inl x)
           | Inr s1 \<Rightarrow> crawl_loop env start_url download_folder s1))"

definition initial_state :: "string \<Rightarrow> 'w \<Rightarrow> 'w crawl_state" where
  "initial_state start_url w =
     \<lparr>urls_to_visit = [start_url], visited_urls = {}, downloaded_pdf_urls = {},
      world = w, trace = []\<rparr>"


text \<open>The first \<open>n\<close> passes of the main loop: the URLs taken from the frontier so far, in
  order, and the state reached (or the exception raised). Every state a crawl goes
  through at the head of its loop is \<open>crawl_steps n\<close> for some \<open>n\<close>, whether the crawl ends
  or not.\<close>

fun crawl_steps ::
  "nat \<Rightarrow> 'w env \<Rightarrow> string \<Rightarrow> string \<Rightarrow> 'w crawl_state \<Rightarrow> string list \<times> 'w crawl_result" where
  "crawl_steps 0 env start_url download_folder s = ([], Inr s)"
| "crawl_steps (Suc n) env start_url download_folder s =
     (case urls_to_visit s of
        [] \<Rightarrow> ([], Inr s)
      | current_url # rest \<Rightarrow>
          (case crawl_page env start_url download_folder current_url (s\<lparr>urls_to_visit := rest\<rparr>) of
             Inl x \<Rightarrow> ([current_url], Inl x)
           | Inr s1 \<Rightarrow>
               (case crawl_steps n env start_url download_folder s1 of
                  (popped, r) \<Rightarrow> (current_url # popped, r))))"

section \<open>The query repair described in words\<close>

text \<open>The specification describes the repaired query as what remains of the query after
  everything up to and including its last \<open>?\<close> is discarded.\<close>

definition substring_after_last :: "char \<Rightarrow> string \<Rightarrow> string" where
  "substring_after_last c s = drop (Suc (rfind c s)) s"

section \<open>Vocabulary of the properties\<close>

text \<open>The events of the failed attempts: each GET is followed by its back-off sleep.\<close>
definition failed_attempts :: "string \<Rightarrow> bool \<Rightarrow> nat \<Rightarrow> get_outcome list \<Rightarrow> event list" where
  "failed_attempts url stream timeout outcomes =
     concat (map (\<lambda>i. [Get url stream timeout (outcomes ! i),
                         Sleep (of_nat (BACKOFF_FACTOR * 2 ^ i))]) [0 ..< length outcomes])"

text \<open>The failure of an attempt as the specification words it: a transport error, or
  a status outside 200 to 299.\<close>

definition non_2xx_or_error :: "get_outcome \<Rightarrow> bool" where
  "non_2xx_or_error outcome =
     (case outcome of
        RequestException \<Rightarrow> True
      | Responded r \<Rightarrow> \<not> (200 \<le> status_code r \<and> status_code r < 300))"

text \<open>The events a fetch adds to the trace: GETs and sleeps.\<close>

definition get_or_sleep :: "event \<Rightarrow> bool" where
  "get_or_sleep e = (case e of Get u st tmo outcome \<Rightarrow> True | Sleep d \<Rightarrow> True | _ \<Rightarrow> False)"

text \<open>The pages fetched, in order: the URLs of the \<open>Crawling\<close> events.\<close>

definition page_fetches :: "event list \<Rightarrow> string list" where
  "page_fetches tr = concat (map (\<lambda>e. case e of Crawling u \<Rightarrow> [u] | _ \<Rightarrow> []) tr)"

text \<open>\<open>strips_to v u\<close>: the fragment-stripped form of \<open>u\<close> is \<open>v\<close>.\<close>

definition strips_to :: "string \<Rightarrow> string \<Rightarrow> bool" where
  "strips_to v u = (case urldefrag u of Inl e \<Rightarrow> False | Inr (normalized, frag) \<Rightarrow> normalized = v)"

text \<open>The file writes of the downloads of \<open>a\<close>, and those that went through.\<close>

definition file_writes :: "string \<Rightarrow> event list \<Rightarrow> event list" where
  "file_writes a tr =
     filter (\<lambda>e. case e of Write_File u file_path ok \<Rightarrow> u = a | _ \<Rightarrow> False) tr"

definition successful_writes :: "string \<Rightarrow> event list \<Rightarrow> event list" where
  "successful_writes a tr =
     filter (\<lambda>e. case e of Write_File u file_path ok \<Rightarrow> u = a \<and> ok | _ \<Rightarrow> False) tr"

text \<open>The links a page adds to the frontier: new to the frontier, resolved from an
  \<open>href\<close> of the page, and with a fragment-stripped form that is in scope and not
  visited.\<close>

definition new_links ::
  "string \<Rightarrow> string \<Rightarrow> string list \<Rightarrow> 'w crawl_state \<Rightarrow> string list \<Rightarrow> bool" where
  "new_links start_url current_url hrefs s new =
     (distinct new \<and>
      (\<forall>a \<in> set new.
         a \<notin> set (urls_to_visit s)
         \<and> (\<exists>h \<in> set hrefs. build_absolute_url current_url h = Inr a)
         \<and> (\<exists>v. strips_to v a \<and> v \<notin> visited_urls s \<and> startswith v start_url)))"

text \<open>The downloaded set and the trace agree: a URL is in the set exactly when a file
  write of its download went through, and such a write is the last file write of the
  URL.\<close>

definition downloads_ok :: "'w crawl_state \<Rightarrow> bool" where
  "downloads_ok s =
     (\<forall>a. (a \<in> downloaded_pdf_urls s \<longleftrightarrow> successful_writes a (trace s) \<noteq> [])
          \<and> successful_writes a (butlast (file_writes a (trace s))) = [])"

text \<open>Every page fetched has its fragment-stripped form in the visited set, and no two
  fetches share a fragment-stripped form.\<close>

definition fetches_ok :: "'w crawl_state \<Rightarrow> bool" where
  "fetches_ok s =
     ((\<forall>u \<in> set (page_fetches (trace s)). \<exists>v. strips_to v u \<and> v \<in> visited_urls s)
      \<and> (\<forall>v. length (filter (strips_to v) (page_fetches (trace s))) \<le> 1))"

text \<open>The discoverable URLs: what \<open>build_absolute_url\<close> makes of an \<open>href\<close> of a page
  that the site can answer with, resolved against the URL of that page. Those in scope
  have a fragment-stripped form that starts with the start URL.\<close>

definition discoverable :: "'w env \<Rightarrow> string set" where
  "discoverable env =
     {a. \<exists>w u resp w1 h. session_get env w u False 15 = (Responded resp, w1)
            \<and> h \<in> set (find_hrefs env (resp_text resp))
            \<and> build_absolute_url u h = Inr a}"

definition discoverable_in_scope :: "'w env \<Rightarrow> string \<Rightarrow> string set" where
  "discoverable_in_scope env start_url =
     {a \<in> discoverable env. \<exists>v. strips_to v a \<and> startswith v start_url}"

text \<open>The outcomes of the GETs in a piece of the trace, in order.\<close>

definition get_outcomes :: "event list \<Rightarrow> get_outcome list" where
  "get_outcomes tr =
     concat (map (\<lambda>e. case e of Get u st tmo outcome \<Rightarrow> [outcome] | _ \<Rightarrow> []) tr)"


section \<open>Example environments\<close>

text \<open>A site that answers every URL the same way, whatever was asked before: the world
  is trivial, sleeping changes nothing and every file write succeeds. A page's text is
  the list of its \<open>href\<close> values, separated by spaces.\<close>

definition static_env :: "(string \<Rightarrow> get_outcome) \<Rightarrow> unit env" where
  "static_env site =
     \<lparr>session_get = (\<lambda>w url stream timeout. (site url, w)),
      sleep = (\<lambda>w d. w),
      write_file = (\<lambda>w file_path resp. (True, w)),
      find_hrefs = (\<lambda>body. filter (\<lambda>h. h \<noteq> []) (split CHR '' '' body))\<rparr>"

definition page :: "string \<Rightarrow> get_outcome" where
  "page body = Responded \<lparr>status_code = 200, resp_text = body\<rparr>"

text \<open>A site whose every page is empty.\<close>

definition blank_env :: "unit env" where
  "blank_env = static_env (\<lambda>u. page [])"

text \<open>A start page that links to one page twice, with two fragments.\<close>

definition fragment_site :: "string \<Rightarrow> get_outcome" where
  "fragment_site u =
     (if u = ''https://site.example/'' then page ''page#a page#b'' else page [])"

text \<open>The scenario of the specification: page A links to page B and to a PDF, page B
  links back to A, to a second results page and to the same PDF.\<close>

definition imy_site :: "string \<Rightarrow> get_outcome" where
  "imy_site u =
     (if u = ''https://imy.test/tillsyner/''
      then page ''https://imy.test/tillsyner/b https://imy.test/files/report.pdf''
      else if u = ''https://imy.test/tillsyner/b''
      then page ''https://imy.test/tillsyner/ ?page=2 https://imy.test/files/report.pdf''
      else page [])"

text \<open>A site that is down: every request raises.\<close>

definition down_env :: "unit env" where
  "down_env = static_env (\<lambda>u. RequestException)"

text \<open>A server whose first two answers are transport errors; the world counts the
  requests made.\<close>

definition flaky_env :: "nat env" where
  "flaky_env =
     \<lparr>session_get = (\<lambda>w url stream timeout.
         (if w < 2 then RequestException
          else Responded \<lparr>status_code = 200, resp_text = ''ok''\<rparr>, Suc w)),
      sleep = (\<lambda>w d. w),
      write_file = (\<lambda>w file_path resp. (True, w)),
      find_hrefs = (\<lambda>body. [])\<rparr>"

text \<open>A server whose first three answers are transport errors; the world counts the
  requests made.\<close>

definition three_failures_env :: "nat env" where
  "three_failures_env =
     \<lparr>session_get = (\<lambda>w url stream timeout.
         (if w < 3 then RequestException
          else Responded \<lparr>status_code = 200, resp_text = ''ok''\<rparr>, Suc w)),
      sleep = (\<lambda>w d. w),
      write_file = (\<lambda>w file_path resp. (True, w)),
      find_hrefs = (\<lambda>body. [])\<rparr>"

text \<open>A server that answers every request with 304 Not Modified.\<close>

definition not_modified_env :: "unit env" where
  "not_modified_env = static_env (\<lambda>u. Responded \<lparr>status_code = 304, resp_text = []\<rparr>)"


section \<open>Properties of the URL builder\<close>

lemma split_nonempty: "split c s \<noteq> []"
  by (induction s) (auto split: list.splits)

lemma last_split: "last (split c s) = rev (takeWhile (\<lambda>x. x \<noteq> c) (rev s))"
proof (induction s)
  case Nil
  then show ?case by simp
next
  case (Cons x s)
  obtain p ps where ps: "split c s = p # ps"
    using split_nonempty [of c s] by (cases "split c s") auto
  show ?case
  proof (cases "x = c")
    case True
    then show ?thesis using Cons ps by (simp add: takeWhile_append)
  next
    case False
    have single: "ps = [] \<longleftrightarrow> c \<notin> set s"
      using ps
    proof (induction s arbitrary: p ps)
      case Nil
      then show ?case by auto
    next
      case (Cons y s)
      obtain q qs where qs: "split c s = q # qs"
        using split_nonempty [of c s] by (cases "split c s") auto
      with Cons show ?case by (auto split: if_splits)
    qed
    have whole: "c \<notin> set s \<Longrightarrow> split c s = [s]"
      by (induction s) auto
    show ?thesis
    proof (cases "c \<in> set s")
      case True
      then have "ps \<noteq> []" using single by simp
      then show ?thesis using False Cons ps True by (auto simp: takeWhile_append)
    next
      case False
      then show ?thesis using \<open>x \<noteq> c\<close> whole [OF False] by (simp add: takeWhile_append)
    qed
  qed
qed

lemma rfind_decomp:
  assumes "c \<in> set s"
  obtains ys zs where "s = zs @ c # ys" "c \<notin> set ys" "rfind c s = length zs"
    "takeWhile (\<lambda>x. x \<noteq> c) (rev s) = rev ys"
proof -
  from assms have "c \<in> set (rev s)" by simp
  then obtain us vs where uv: "rev s = us @ c # vs" "c \<notin> set us"
    by (meson split_list_first)
  then have s: "s = rev vs @ c # rev us"
    by (metis rev_append rev_rev_ident rev.simps(2) append.assoc append_Cons append_Nil)
  have tw: "takeWhile (\<lambda>x. x \<noteq> c) (rev s) = us"
    using uv by (auto simp add: takeWhile_append2 takeWhile_tail)
  have "rfind c s = length (rev vs)"
    unfolding rfind_def tw using s by (metis add_Suc_right diff_add_inverse2 length_Cons length_append length_rev)
  with s tw uv(2) show thesis
    using that [of "rev vs" "rev us"] by simp
qed

lemma last_split_after_last:
  assumes "c \<in> set s"
  shows "last (split c s) = substring_after_last c s"
proof -
  from assms obtain ys zs where *: "s = zs @ c # ys" "rfind c s = length zs"
    "takeWhile (\<lambda>x. x \<noteq> c) (rev s) = rev ys"
    by (rule rfind_decomp)
  have "substring_after_last c s = ys"
    unfolding substring_after_last_def *(2) by (simp add: *(1))
  then show ?thesis by (simp add: last_split *(3))
qed

lemma after_last_decomp:
  assumes "c \<in> set s"
  shows "s = take (rfind c s) s @ c # substring_after_last c s \<and> c \<notin> set (substring_after_last c s)"
proof -
  from assms obtain ys zs where *: "s = zs @ c # ys" "c \<notin> set ys" "rfind c s = length zs"
    by (rule rfind_decomp)
  have a: "substring_after_last c s = ys"
    unfolding substring_after_last_def *(3) by (simp add: *(1))
  have b: "take (rfind c s) s = zs"
    unfolding *(3) by (simp add: *(1))
  show ?thesis unfolding a b using * by simp
qed

text \<open>
  Claim C1. Whenever joining \<open>base\<close> and \<open>href\<close> gives a URL whose query contains a
  \<open>?\<close>, \<open>build_absolute_url\<close> returns the URL put together again by \<open>urlunparse\<close> from
  the scheme, host, path, parameters and fragment of the joined URL and, as query, the
  substring after the last \<open>?\<close> of its query (the query is some text, a \<open>?\<close>, and
  that substring, which has no \<open>?\<close> left). And resolving \<open>?page=2\<close> against
  \<open>https://x/y?page=1\<close> gives \<open>https://x/y?page=2\<close>.
\<close>

theorem build_absolute_url_query_repair:
  "(\<forall>base href joined_url parsed_join.
      urljoin base href = Inr joined_url \<longrightarrow>
      urlparse joined_url [] = Inr parsed_join \<longrightarrow>
      CHR ''?'' \<in> set (query parsed_join) \<longrightarrow>
        build_absolute_url base href =
          Inr (urlunparse (parsed_join\<lparr>query := substring_after_last CHR ''?'' (query parsed_join)\<rparr>))
        \<and> query parsed_join =
            take (rfind CHR ''?'' (query parsed_join)) (query parsed_join)
              @ CHR ''?'' # substring_after_last CHR ''?'' (query parsed_join)
        \<and> CHR ''?'' \<notin> set (substring_after_last CHR ''?'' (query parsed_join)))
   \<and> build_absolute_url ''https://x/y?page=1'' ''?page=2'' = Inr ''https://x/y?page=2''
   \<and> build_absolute_url ''https://x/y?page=1'' ''?page=2'' \<noteq> Inr ''https://x/y?page=1?page=2''"
proof (intro conjI allI impI)
  fix base href joined_url parsed_join
  assume j: "urljoin base href = Inr joined_url"
    and p: "urlparse joined_url [] = Inr parsed_join"
    and q: "CHR ''?'' \<in> set (query parsed_join)"
  show "build_absolute_url base href =
          Inr (urlunparse (parsed_join\<lparr>query := substring_after_last CHR ''?'' (query parsed_join)\<rparr>))"
    using j p q by (simp add: build_absolute_url_def last_split_after_last)
  show "query parsed_join =
            take (rfind CHR ''?'' (query parsed_join)) (query parsed_join)
              @ CHR ''?'' # substring_after_last CHR ''?'' (query parsed_join)"
    using after_last_decomp [OF q] by simp
  show "CHR ''?'' \<notin> set (substring_after_last CHR ''?'' (query parsed_join))"
    using after_last_decomp [OF q] by simp
next
  show e: "build_absolute_url ''https://x/y?page=1'' ''?page=2'' = Inr ''https://x/y?page=2''"
    by code_simp
  show "build_absolute_url ''https://x/y?page=1'' ''?page=2'' \<noteq> Inr ''https://x/y?page=1?page=2''"
    unfolding e by simp
qed

theorem build_absolute_url_query_repair_witness:
  "urljoin ''https://x/y'' ''?page=1?page=2'' = Inr ''https://x/y?page=1?page=2''
   \<and> urlparse ''https://x/y?page=1?page=2'' [] =
       Inr \<lparr>scheme = ''https'', netloc = ''x'', path = ''/y'', params = [],
            query = ''page=1?page=2'', fragment = []\<rparr>
   \<and> CHR ''?'' \<in> set ''page=1?page=2''
   \<and> build_absolute_url ''https://x/y'' ''?page=1?page=2'' = Inr ''https://x/y?page=2''"
proof -
  let ?p = "\<lparr>scheme = ''https'', netloc = ''x'', path = ''/y'', params = [],
            query = ''page=1?page=2'', fragment = []\<rparr>"
  have j: "urljoin ''https://x/y'' ''?page=1?page=2'' = Inr ''https://x/y?page=1?page=2''"
    by code_simp
  have p: "urlparse ''https://x/y?page=1?page=2'' [] = Inr ?p"
    by code_simp
  have q: "CHR ''?'' \<in> set (query ?p)"
    by simp
  have u: "urlunparse (?p\<lparr>query := substring_after_last CHR ''?'' (query ?p)\<rparr>) = ''https://x/y?page=2''"
    by code_simp
  from build_absolute_url_query_repair j p q
  have "build_absolute_url ''https://x/y'' ''?page=1?page=2'' =
          Inr (urlunparse (?p\<lparr>query := substring_after_last CHR ''?'' (query ?p)\<rparr>))"
    by blast
  with j p q u show ?thesis by simp
qed

section \<open>Properties of the fetcher\<close>

lemma make_request_attempts_list:
  "make_request_with_retries env url stream timeout io =
     request_attempts env url stream timeout [0, 1, 2] io"
  by (simp add: make_request_with_retries_def RETRIES_def upt_rec numeral_2_eq_2)

lemma failed_attempts_simps:
  "failed_attempts url stream timeout [] = []"
  "failed_attempts url stream timeout [a] = [Get url stream timeout a, Sleep 1]"
  "failed_attempts url stream timeout [a, b] =
     [Get url stream timeout a, Sleep 1, Get url stream timeout b, Sleep 2]"
  by (simp_all add: failed_attempts_def BACKOFF_FACTOR_def upt_rec)

text \<open>
  Claim C3. \<open>make_request_with_retries\<close> adds to the trace at most \<open>RETRIES = 3\<close> GETs:
  some failed attempts, fewer than three, the attempt \<open>i\<close> followed by a sleep of
  \<open>BACKOFF_FACTOR * 2 ^ i\<close> seconds (1 after the first, 2 after the second), and one
  last GET with nothing after it. If a response is returned, it is the response of that
  last GET, the first attempt that did not fail; if \<open>None\<close> is returned, the last GET
  failed too and was the third.
\<close>

theorem make_request_with_retries_attempts:
  "\<exists>failed final.
      length failed < RETRIES \<and> list_all attempt_failed failed
      \<and> snd (snd (make_request_with_retries env url stream timeout (w, tr))) =
          tr @ failed_attempts url stream timeout failed @ [Get url stream timeout final]
      \<and> (case fst (make_request_with_retries env url stream timeout (w, tr)) of
            Some r \<Rightarrow> final = Responded r \<and> \<not> attempt_failed final
          | None \<Rightarrow> attempt_failed final \<and> length failed + 1 = RETRIES)"
proof -
  obtain o0 w1 where g0: "session_get env w url stream timeout = (o0, w1)"
    by force
  obtain o1 w2 where g1: "session_get env (sleep env w1 1) url stream timeout = (o1, w2)"
    by force
  obtain o2 w3 where g2: "session_get env (sleep env w2 2) url stream timeout = (o2, w3)"
    by force
  let ?m = "make_request_with_retries env url stream timeout (w, tr)"
  let ?G = "Get url stream timeout"
  consider (first) "\<not> attempt_failed o0"
    | (second) "attempt_failed o0" "\<not> attempt_failed o1"
    | (third) "attempt_failed o0" "attempt_failed o1"
    by blast
  then show ?thesis
  proof cases
    case first
    then obtain r where r: "o0 = Responded r" "\<not> raise_for_status r"
      by (cases o0) (auto simp: attempt_failed_def)
    have "?m = (Some r, w1, tr @ [?G o0])"
      using g0 r by (simp add: make_request_attempts_list)
    then show ?thesis using first r
      by (intro exI [of _ "[]"] exI [of _ o0]) (simp add: failed_attempts_simps RETRIES_def)
  next
    case second
    then obtain r where r: "o1 = Responded r" "\<not> raise_for_status r"
      by (cases o1) (auto simp: attempt_failed_def)
    have "?m = (Some r, w2, tr @ [?G o0, Sleep 1, ?G o1])"
      using g0 g1 r second(1)
      by (cases o0) (simp_all add: make_request_attempts_list attempt_failed_def
          RETRIES_def BACKOFF_FACTOR_def sleep_time_def)
    then show ?thesis using second r
      by (intro exI [of _ "[o0]"] exI [of _ o1]) (simp add: failed_attempts_simps RETRIES_def)
  next
    case third
    have m: "?m = ((case o2 of Responded r \<Rightarrow> if raise_for_status r then None else Some r
                     | RequestException \<Rightarrow> None),
                   w3, tr @ [?G o0, Sleep 1, ?G o1, Sleep 2, ?G o2])"
      using g0 g1 g2 third
      by (cases o0; cases o1; cases o2)
         (simp_all add: make_request_attempts_list attempt_failed_def
          RETRIES_def BACKOFF_FACTOR_def sleep_time_def)
    show ?thesis using third
      by (intro exI [of _ "[o0, o1]"] exI [of _ o2])
         (cases o2; simp add: m failed_attempts_simps RETRIES_def attempt_failed_def)
  qed
qed

theorem make_request_with_retries_attempts_witness:
  "make_request_with_retries flaky_env ''https://x/'' False 15 (0, []) =
     (Some \<lparr>status_code = 200, resp_text = ''ok''\<rparr>, 3,
      [Get ''https://x/'' False 15 RequestException, Sleep 1,
       Get ''https://x/'' False 15 RequestException, Sleep 2,
       Get ''https://x/'' False 15 (Responded \<lparr>status_code = 200, resp_text = ''ok''\<rparr>)])
   \<and> (\<exists>failed final.
        length failed < 3 \<and> list_all attempt_failed failed
        \<and> [Get ''https://x/'' False 15 RequestException, Sleep 1,
            Get ''https://x/'' False 15 RequestException, Sleep 2,
            Get ''https://x/'' False 15 (Responded \<lparr>status_code = 200, resp_text = ''ok''\<rparr>)] =
            failed_attempts ''https://x/'' False 15 failed @ [Get ''https://x/'' False 15 final]
        \<and> final = Responded \<lparr>status_code = 200, resp_text = ''ok''\<rparr>
        \<and> \<not> attempt_failed final)"
proof -
  have run: "make_request_with_retries flaky_env ''https://x/'' False 15 (0, []) =
     (Some \<lparr>status_code = 200, resp_text = ''ok''\<rparr>, 3,
      [Get ''https://x/'' False 15 RequestException, Sleep 1,
       Get ''https://x/'' False 15 RequestException, Sleep 2,
       Get ''https://x/'' False 15 (Responded \<lparr>status_code = 200, resp_text = ''ok''\<rparr>)])"
    by (simp add: make_request_attempts_list flaky_env_def RETRIES_def BACKOFF_FACTOR_def sleep_time_def
        raise_for_status_def numeral_3_eq_3)
  from make_request_with_retries_attempts [of flaky_env "''https://x/''" False 15 0 "[]"]
  show ?thesis
    unfolding run by (simp add: RETRIES_def)
qed

section \<open>Unfolding the main loop\<close>

lemma crawl_loop_Nil:
  "urls_to_visit s = [] \<Longrightarrow> crawl_loop env start_url download_folder s = Some (Inr s)"
  by (subst crawl_loop.simps) simp

lemma crawl_loop_Cons:
  "urls_to_visit s = current_url # rest \<Longrightarrow> s0 = s\<lparr>urls_to_visit := rest\<rparr> \<Longrightarrow>
   crawl_page env start_url download_folder current_url s0 = Inr s1 \<Longrightarrow>
   crawl_loop env start_url download_folder s = crawl_loop env start_url download_folder s1"
  by (subst crawl_loop.simps) simp


section \<open>Failed fetches\<close>

lemma make_request_all_failed:
  assumes "\<And>w'. attempt_failed (fst (session_get env w' url stream timeout))"
  shows "fst (make_request_with_retries env url stream timeout (w, tr)) = None"
proof -
  have f: "\<And>w' o' w''. session_get env w' url stream timeout = (o', w'') \<Longrightarrow> attempt_failed o'"
    using assms by (metis fst_conv)
  obtain o0 w1 where g0: "session_get env w url stream timeout = (o0, w1)"
    by force
  obtain o1 w2 where g1: "session_get env (sleep env w1 1) url stream timeout = (o1, w2)"
    by force
  obtain o2 w3 where g2: "session_get env (sleep env w2 2) url stream timeout = (o2, w3)"
    by force
  show ?thesis
    using f [OF g0] f [OF g1] f [OF g2] g0 g1 g2
    by (cases o0; cases o1; cases o2)
       (simp_all add: make_request_attempts_list attempt_failed_def RETRIES_def BACKOFF_FACTOR_def sleep_time_def)
qed

lemma crawl_loop_fetch_failed:
  assumes "urls_to_visit s = current_url # rest"
    and "urldefrag current_url = Inr (normalized_url, frag)"
    and "normalized_url \<notin> visited_urls s"
    and "make_request_with_retries env current_url False 15
           (sleep env (world s) POLITE_DELAY_SECONDS,
            trace s @ [Crawling current_url, Sleep POLITE_DELAY_SECONDS]) = (None, w1, tr1)"
  shows "crawl_loop env start_url download_folder s =
         crawl_loop env start_url download_folder
           (s\<lparr>urls_to_visit := rest, visited_urls := insert normalized_url (visited_urls s),
              world := w1, trace := tr1\<rparr>)"
  using assms
  by (subst crawl_loop.simps) (simp add: crawl_page_def)

lemma get_outcomes_simps [simp]:
  "get_outcomes [] = []"
  "get_outcomes (Get u st tmo outcome # tr) = outcome # get_outcomes tr"
  "get_outcomes (Sleep d # tr) = get_outcomes tr"
  by (simp_all add: get_outcomes_def)

lemma make_request_runs:
  obtains (first) r w1 where "\<not> raise_for_status r"
      "make_request_with_retries env url stream timeout (w, tr) =
         (Some r, w1, tr @ [Get url stream timeout (Responded r)])"
      "session_get env w url stream timeout = (Responded r, w1)"
    | (second) o0 r w2 where "attempt_failed o0" "\<not> raise_for_status r"
      "make_request_with_retries env url stream timeout (w, tr) =
         (Some r, w2, tr @ [Get url stream timeout o0, Sleep 1,
                            Get url stream timeout (Responded r)])"
      "fst (session_get env w url stream timeout) = o0"
    | (third) o0 o1 r w3 where "attempt_failed o0" "attempt_failed o1" "\<not> raise_for_status r"
      "make_request_with_retries env url stream timeout (w, tr) =
         (Some r, w3, tr @ [Get url stream timeout o0, Sleep 1, Get url stream timeout o1, Sleep 2,
                            Get url stream timeout (Responded r)])"
      "fst (session_get env w url stream timeout) = o0"
    | (exhausted) o0 o1 o2 w3 where "attempt_failed o0" "attempt_failed o1" "attempt_failed o2"
      "make_request_with_retries env url stream timeout (w, tr) =
         (None, w3, tr @ [Get url stream timeout o0, Sleep 1, Get url stream timeout o1, Sleep 2,
                          Get url stream timeout o2])"
      "fst (session_get env w url stream timeout) = o0"
proof -
  obtain o0 w1 where g0: "session_get env w url stream timeout = (o0, w1)"
    by force
  obtain o1 w2 where g1: "session_get env (sleep env w1 1) url stream timeout = (o1, w2)"
    by force
  obtain o2 w3 where g2: "session_get env (sleep env w2 2) url stream timeout = (o2, w3)"
    by force
  let ?m = "make_request_with_retries env url stream timeout (w, tr)"
  let ?G = "Get url stream timeout"
  consider (a) "\<not> attempt_failed o0"
    | (b) "attempt_failed o0" "\<not> attempt_failed o1"
    | (c) "attempt_failed o0" "attempt_failed o1" "\<not> attempt_failed o2"
    | (d) "attempt_failed o0" "attempt_failed o1" "attempt_failed o2"
    by blast
  then show thesis
  proof cases
    case a
    then obtain r where r: "o0 = Responded r" "\<not> raise_for_status r"
      by (cases o0) (auto simp: attempt_failed_def)
    have "?m = (Some r, w1, tr @ [?G (Responded r)])"
      using g0 r by (simp add: make_request_attempts_list)
    with r g0 show ?thesis using first by simp
  next
    case b
    then obtain r where r: "o1 = Responded r" "\<not> raise_for_status r"
      by (cases o1) (auto simp: attempt_failed_def)
    have "?m = (Some r, w2, tr @ [?G o0, Sleep 1, ?G (Responded r)])"
      using g0 g1 r b(1)
      by (cases o0) (simp_all add: make_request_attempts_list attempt_failed_def
          RETRIES_def BACKOFF_FACTOR_def sleep_time_def)
    with r b g0 show ?thesis using second by simp
  next
    case c
    then obtain r where r: "o2 = Responded r" "\<not> raise_for_status r"
      by (cases o2) (auto simp: attempt_failed_def)
    have "?m = (Some r, w3, tr @ [?G o0, Sleep 1, ?G o1, Sleep 2, ?G (Responded r)])"
      using g0 g1 g2 r c(1,2)
      by (cases o0; cases o1) (simp_all add: make_request_attempts_list attempt_failed_def
          RETRIES_def BACKOFF_FACTOR_def sleep_time_def)
    with r c g0 show ?thesis using third by simp
  next
    case d
    have "?m = (None, w3, tr @ [?G o0, Sleep 1, ?G o1, Sleep 2, ?G o2])"
      using g0 g1 g2 d
      by (cases o0; cases o1; cases o2) (simp_all add: make_request_attempts_list attempt_failed_def
          RETRIES_def BACKOFF_FACTOR_def sleep_time_def)
    with d g0 show ?thesis using exhausted by simp
  qed
qed

lemma attempt_failed_iff:
  "attempt_failed outcome \<longleftrightarrow>
     outcome = RequestException
     \<or> (\<exists>r. outcome = Responded r \<and> 400 \<le> status_code r \<and> status_code r < 600)"
  by (cases outcome) (simp_all add: attempt_failed_def raise_for_status_def)

lemma make_request_outcomes:
  assumes "make_request_with_retries env url stream timeout (w, tr) = (res, w1, tr1)"
  shows "\<exists>ext. tr1 = tr @ ext \<and> get_outcomes ext \<noteq> []
     \<and> hd (get_outcomes ext) = fst (session_get env w url stream timeout)
     \<and> (list_all attempt_failed (get_outcomes ext) \<longrightarrow>
          res = None \<and> length (get_outcomes ext) = RETRIES)
     \<and> (\<not> list_all attempt_failed (get_outcomes ext) \<longrightarrow>
          (\<exists>r. res = Some r \<and> last (get_outcomes ext) = Responded r
               \<and> \<not> (400 \<le> status_code r \<and> status_code r < 600)))"
proof (cases rule: make_request_runs [of env url stream timeout w tr])
  case (first r w1')
  with assms show ?thesis
    by (intro exI [of _ "[Get url stream timeout (Responded r)]"])
       (auto simp add: attempt_failed_def raise_for_status_def)
next
  case (second o0 r w2)
  with assms show ?thesis
    by (intro exI [of _ "[Get url stream timeout o0, Sleep 1, Get url stream timeout (Responded r)]"])
       (auto simp add: attempt_failed_def raise_for_status_def)
next
  case (third o0 o1 r w3)
  with assms show ?thesis
    by (intro exI [of _ "[Get url stream timeout o0, Sleep 1, Get url stream timeout o1, Sleep 2,
                          Get url stream timeout (Responded r)]"])
       (auto simp add: attempt_failed_def raise_for_status_def)
next
  case (exhausted o0 o1 o2 w3)
  with assms show ?thesis
    by (intro exI [of _ "[Get url stream timeout o0, Sleep 1, Get url stream timeout o1, Sleep 2,
                          Get url stream timeout o2]"])
       (auto simp add: RETRIES_def)
qed

lemma make_request_first_success:
  assumes "session_get env w url stream timeout = (Responded r, w1)"
    and "\<not> (400 \<le> status_code r \<and> status_code r < 600)"
  shows "make_request_with_retries env url stream timeout (w, tr) =
           (Some r, w1, tr @ [Get url stream timeout (Responded r)])"
  using assms by (simp add: make_request_attempts_list raise_for_status_def)

text \<open>
  Claim C7, as the code has it. The \<open>except\<close> clause of \<open>make_request_with_retries\<close>
  covers a \<open>RequestException\<close> of the GET and the \<open>HTTPError\<close> that
  \<open>raise_for_status\<close> raises for a status from 400 to 599; an attempt fails exactly
  then. A call makes at least one GET, the first in the world it starts in. When every
  GET the call makes fails, it returns \<open>None\<close> and has made \<open>RETRIES = 3\<close> of them.
  Otherwise it returns the response of its last GET, and the status of that response is
  outside 400 to 599: a first response with such a status, 304 for instance, is returned
  at once. When the fetch of the page at the head of the frontier returns \<open>None\<close>, the
  main loop goes on with the rest of the frontier: the URL is marked visited and is not
  put back.
\<close>

theorem fetch_failure_is_skipped:
  "(\<forall>env url stream timeout w tr res w1 tr1.
      make_request_with_retries env (url :: string) stream timeout (w :: 'w, tr) = (res, w1, tr1) \<longrightarrow>
      (\<exists>ext. tr1 = tr @ ext \<and> get_outcomes ext \<noteq> []
         \<and> hd (get_outcomes ext) = fst (session_get env w url stream timeout)
         \<and> (list_all attempt_failed (get_outcomes ext) \<longrightarrow>
              res = None \<and> length (get_outcomes ext) = RETRIES)
         \<and> (\<not> list_all attempt_failed (get_outcomes ext) \<longrightarrow>
              (\<exists>r. res = Some r \<and> last (get_outcomes ext) = Responded r
                   \<and> \<not> (400 \<le> status_code r \<and> status_code r < 600)))))
   \<and> (\<forall>outcome. attempt_failed outcome \<longleftrightarrow>
         outcome = RequestException
         \<or> (\<exists>r. outcome = Responded r \<and> 400 \<le> status_code r \<and> status_code r < 600))
   \<and> (\<forall>env url stream timeout w tr r w1.
        session_get env w (url :: string) stream timeout = (Responded r, w1 :: 'w) \<longrightarrow>
        \<not> (400 \<le> status_code r \<and> status_code r < 600) \<longrightarrow>
        make_request_with_retries env url stream timeout (w, tr) =
          (Some r, w1, tr @ [Get url stream timeout (Responded r)]))
   \<and> (\<forall>env url stream timeout w tr.
      (\<forall>w'. attempt_failed (fst (session_get env w' url stream timeout))) \<longrightarrow>
      fst (make_request_with_retries env (url :: string) stream timeout (w :: 'w, tr)) = None)
   \<and> (\<forall>env start_url download_folder (s :: 'w crawl_state) current_url rest normalized_url frag w1 tr1.
      urls_to_visit s = current_url # rest \<longrightarrow>
      urldefrag current_url = Inr (normalized_url, frag) \<longrightarrow>
      normalized_url \<notin> visited_urls s \<longrightarrow>
      make_request_with_retries env current_url False 15
           (sleep env (world s) POLITE_DELAY_SECONDS,
            trace s @ [Crawling current_url, Sleep POLITE_DELAY_SECONDS]) = (None, w1, tr1) \<longrightarrow>
      crawl_loop env start_url download_folder s =
         crawl_loop env start_url download_folder
           (s\<lparr>urls_to_visit := rest, visited_urls := insert normalized_url (visited_urls s),
              world := w1, trace := tr1\<rparr>))"
proof (intro conjI allI impI)
  fix env :: "'w env" and url stream timeout w tr res w1 tr1
  assume "make_request_with_retries env url stream timeout (w, tr) = (res, w1, tr1)"
  then show "\<exists>ext. tr1 = tr @ ext \<and> get_outcomes ext \<noteq> []
         \<and> hd (get_outcomes ext) = fst (session_get env w url stream timeout)
         \<and> (list_all attempt_failed (get_outcomes ext) \<longrightarrow>
              res = None \<and> length (get_outcomes ext) = RETRIES)
         \<and> (\<not> list_all attempt_failed (get_outcomes ext) \<longrightarrow>
              (\<exists>r. res = Some r \<and> last (get_outcomes ext) = Responded r
                   \<and> \<not> (400 \<le> status_code r \<and> status_code r < 600)))"
    by (rule make_request_outcomes)
next
  fix outcome
  show "attempt_failed outcome \<longleftrightarrow>
         outcome = RequestException
         \<or> (\<exists>r. outcome = Responded r \<and> 400 \<le> status_code r \<and> status_code r < 600)"
    by (rule attempt_failed_iff)
next
  fix env :: "'w env" and url stream timeout w tr r w1
  assume "session_get env w url stream timeout = (Responded r, w1)"
    "\<not> (400 \<le> status_code r \<and> status_code r < 600)"
  then show "make_request_with_retries env url stream timeout (w, tr) =
          (Some r, w1, tr @ [Get url stream timeout (Responded r)])"
    by (rule make_request_first_success)
next
  fix env :: "'w env" and url stream timeout w tr
  assume "\<forall>w'. attempt_failed (fst (session_get env w' url stream timeout))"
  then show "fst (make_request_with_retries env url stream timeout (w, tr)) = None"
    by (intro make_request_all_failed) simp
next
  fix env :: "'w env" and start_url download_folder and s :: "'w crawl_state"
    and current_url rest normalized_url frag w1 tr1
  assume "urls_to_visit s = current_url # rest"
    "urldefrag current_url = Inr (normalized_url, frag)"
    "normalized_url \<notin> visited_urls s"
    "make_request_with_retries env current_url False 15
           (sleep env (world s) POLITE_DELAY_SECONDS,
            trace s @ [Crawling current_url, Sleep POLITE_DELAY_SECONDS]) = (None, w1, tr1)"
  then show "crawl_loop env start_url download_folder s =
         crawl_loop env start_url download_folder
           (s\<lparr>urls_to_visit := rest, visited_urls := insert normalized_url (visited_urls s),
              world := w1, trace := tr1\<rparr>)"
    by (rule crawl_loop_fetch_failed)
qed

theorem fetch_failure_is_skipped_witness:
  "make_request_with_retries three_failures_env ''https://x/a'' False 15 (0, []) =
     (None, 3, [Get ''https://x/a'' False 15 RequestException, Sleep 1,
                Get ''https://x/a'' False 15 RequestException, Sleep 2,
                Get ''https://x/a'' False 15 RequestException])
   \<and> list_all attempt_failed [RequestException, RequestException, RequestException]
   \<and> length [RequestException, RequestException, RequestException] = RETRIES
   \<and> attempt_failed (Responded \<lparr>status_code = 404, resp_text = []\<rparr>)
   \<and> \<not> attempt_failed (Responded \<lparr>status_code = 304, resp_text = []\<rparr>)
   \<and> make_request_with_retries not_modified_env ''https://x/a'' False 15 ((), []) =
     (Some \<lparr>status_code = 304, resp_text = []\<rparr>, (),
      [Get ''https://x/a'' False 15 (Responded \<lparr>status_code = 304, resp_text = []\<rparr>)])
   \<and> fst (make_request_with_retries down_env ''https://x/a'' False 15 ((), [])) = None
   \<and> crawl_loop down_env ''https://x/'' ''pdfs''
       \<lparr>urls_to_visit = [''https://x/a'', ''https://x/b''], visited_urls = {},
        downloaded_pdf_urls = {}, world = (), trace = []\<rparr> =
     crawl_loop down_env ''https://x/'' ''pdfs''
       \<lparr>urls_to_visit = [''https://x/b''], visited_urls = {''https://x/a''},
        downloaded_pdf_urls = {}, world = (), trace = [
          Crawling ''https://x/a'', Sleep (1/2),
          Get ''https://x/a'' False 15 RequestException, Sleep 1,
          Get ''https://x/a'' False 15 RequestException, Sleep 2,
          Get ''https://x/a'' False 15 RequestException]\<rparr>
   \<and> crawl_loop down_env ''https://x/'' ''pdfs''
       \<lparr>urls_to_visit = [''https://x/a'', ''https://x/b''], visited_urls = {},
        downloaded_pdf_urls = {}, world = (), trace = []\<rparr> = Some (Inr
       \<lparr>urls_to_visit = [], visited_urls = {''https://x/b'', ''https://x/a''},
        downloaded_pdf_urls = {}, world = (), trace = [
          Crawling ''https://x/a'', Sleep (1/2),
          Get ''https://x/a'' False 15 RequestException, Sleep 1,
          Get ''https://x/a'' False 15 RequestException, Sleep 2,
          Get ''https://x/a'' False 15 RequestException,
          Crawling ''https://x/b'', Sleep (1/2),
          Get ''https://x/b'' False 15 RequestException, Sleep 1,
          Get ''https://x/b'' False 15 RequestException, Sleep 2,
          Get ''https://x/b'' False 15 RequestException]\<rparr>)"
proof -
  let ?G = "Get ''https://x/a'' False 15"
  let ?three = "[?G RequestException, Sleep 1, ?G RequestException, Sleep 2, ?G RequestException]"
  let ?r304 = "\<lparr>status_code = 304, resp_text = []\<rparr>"
  let ?s0 = "\<lparr>urls_to_visit = [''https://x/a'', ''https://x/b''], visited_urls = {},
        downloaded_pdf_urls = {}, world = (), trace = []\<rparr>"
  let ?tr1 = "[Crawling ''https://x/a'', Sleep (1/2),
          Get ''https://x/a'' False 15 RequestException, Sleep 1,
          Get ''https://x/a'' False 15 RequestException, Sleep 2,
          Get ''https://x/a'' False 15 RequestException]"
  have three: "make_request_with_retries three_failures_env ''https://x/a'' False 15 (0, []) =
     (None, 3, ?three)"
    by (simp add: make_request_attempts_list three_failures_env_def RETRIES_def BACKOFF_FACTOR_def
        sleep_time_def numeral_3_eq_3)
  from fetch_failure_is_skipped [THEN conjunct1, rule_format, OF three]
  obtain ext where ext: "?three = [] @ ext"
    "list_all attempt_failed (get_outcomes ext) \<longrightarrow>
       (None :: response option) = None \<and> length (get_outcomes ext) = RETRIES"
    by blast
  have failed: "list_all attempt_failed [RequestException, RequestException, RequestException]"
    by (simp add: attempt_failed_def)
  from ext failed
  have exhausted: "length [RequestException, RequestException, RequestException] = RETRIES"
    by auto
  have f404: "attempt_failed (Responded \<lparr>status_code = 404, resp_text = []\<rparr>)"
    by (simp add: fetch_failure_is_skipped [THEN conjunct2, THEN conjunct1, rule_format])
  have f304: "\<not> attempt_failed (Responded ?r304)"
    by (simp add: fetch_failure_is_skipped [THEN conjunct2, THEN conjunct1, rule_format])
  have g304: "session_get not_modified_env () ''https://x/a'' False 15 = (Responded ?r304, ())"
    by (simp add: not_modified_env_def static_env_def)
  have s304: "\<not> (400 \<le> status_code ?r304 \<and> status_code ?r304 < 600)"
    by simp
  have r304: "make_request_with_retries not_modified_env ''https://x/a'' False 15 ((), []) =
     (Some ?r304, (), [] @ [?G (Responded ?r304)])"
    by (rule fetch_failure_is_skipped [THEN conjunct2, THEN conjunct2, THEN conjunct1,
          rule_format, OF g304 s304])
  have f: "\<And>w'. attempt_failed (fst (session_get down_env w' ''https://x/a'' False 15))"
    by (simp add: down_env_def static_env_def attempt_failed_def)
  have h1: "urls_to_visit ?s0 = ''https://x/a'' # [''https://x/b'']"
    by simp
  have h2: "urldefrag ''https://x/a'' = Inr (''https://x/a'', [])"
    by (simp add: urldefrag_def)
  have h3: "''https://x/a'' \<notin> visited_urls ?s0"
    by simp
  have h4: "make_request_with_retries down_env ''https://x/a'' False 15
           (sleep down_env (world ?s0) POLITE_DELAY_SECONDS,
            trace ?s0 @ [Crawling ''https://x/a'', Sleep POLITE_DELAY_SECONDS]) = (None, (), ?tr1)"
    by (simp add: make_request_attempts_list down_env_def static_env_def RETRIES_def
        BACKOFF_FACTOR_def sleep_time_def POLITE_DELAY_SECONDS_def)
  have run: "crawl_loop down_env ''https://x/'' ''pdfs'' ?s0 = Some (Inr
       \<lparr>urls_to_visit = [], visited_urls = {''https://x/b'', ''https://x/a''},
        downloaded_pdf_urls = {}, world = (), trace = [
          Crawling ''https://x/a'', Sleep (1/2),
          Get ''https://x/a'' False 15 RequestException, Sleep 1,
          Get ''https://x/a'' False 15 RequestException, Sleep 2,
          Get ''https://x/a'' False 15 RequestException,
          Crawling ''https://x/b'', Sleep (1/2),
          Get ''https://x/b'' False 15 RequestException, Sleep 1,
          Get ''https://x/b'' False 15 RequestException, Sleep 2,
          Get ''https://x/b'' False 15 RequestException]\<rparr>)"
  proof -
    have b: "crawl_page down_env ''https://x/'' ''pdfs'' ''https://x/b''
          \<lparr>urls_to_visit = [], visited_urls = {''https://x/a''},
        downloaded_pdf_urls = {}, world = (), trace = ?tr1\<rparr> = Inr
       \<lparr>urls_to_visit = [], visited_urls = {''https://x/b'', ''https://x/a''},
        downloaded_pdf_urls = {}, world = (), trace = [
          Crawling ''https://x/a'', Sleep (1/2),
          Get ''https://x/a'' False 15 RequestException, Sleep 1,
          Get ''https://x/a'' False 15 RequestException, Sleep 2,
          Get ''https://x/a'' False 15 RequestException,
          Crawling ''https://x/b'', Sleep (1/2),
          Get ''https://x/b'' False 15 RequestException, Sleep 1,
          Get ''https://x/b'' False 15 RequestException, Sleep 2,
          Get ''https://x/b'' False 15 RequestException]\<rparr>"
      by (simp add: crawl_page_def urldefrag_def make_request_attempts_list down_env_def
          static_env_def RETRIES_def BACKOFF_FACTOR_def sleep_time_def POLITE_DELAY_SECONDS_def)
    have a: "crawl_page down_env ''https://x/'' ''pdfs'' ''https://x/a''
          (?s0\<lparr>urls_to_visit := [''https://x/b'']\<rparr>) = Inr
          \<lparr>urls_to_visit = [''https://x/b''], visited_urls = {''https://x/a''},
        downloaded_pdf_urls = {}, world = (), trace = ?tr1\<rparr>"
      by (simp add: crawl_page_def urldefrag_def make_request_attempts_list down_env_def
          static_env_def RETRIES_def BACKOFF_FACTOR_def sleep_time_def POLITE_DELAY_SECONDS_def)
    show ?thesis
      by (subst crawl_loop_Cons [OF _ _ a], simp, simp, subst crawl_loop_Cons [OF _ _ b], simp, simp,
          rule crawl_loop_Nil, simp)
  qed
  have a: "fst (make_request_with_retries down_env ''https://x/a'' False 15 ((), [])) = None"
    by (rule fetch_failure_is_skipped [THEN conjunct2, THEN conjunct2, THEN conjunct2,
          THEN conjunct1, rule_format]) (rule f)
  from h1 h2 h3 h4
  have "crawl_loop down_env ''https://x/'' ''pdfs'' ?s0 =
        crawl_loop down_env ''https://x/'' ''pdfs''
          (?s0\<lparr>urls_to_visit := [''https://x/b''],
                visited_urls := insert ''https://x/a'' (visited_urls ?s0),
                world := (), trace := ?tr1\<rparr>)"
    by (rule fetch_failure_is_skipped [THEN conjunct2, THEN conjunct2, THEN conjunct2,
          THEN conjunct2, rule_format])
  then have b: "crawl_loop down_env ''https://x/'' ''pdfs'' ?s0 =
        crawl_loop down_env ''https://x/'' ''pdfs''
          \<lparr>urls_to_visit = [''https://x/b''], visited_urls = {''https://x/a''},
        downloaded_pdf_urls = {}, world = (), trace = ?tr1\<rparr>"
    by simp
  from three failed exhausted f404 f304 r304 a b run show ?thesis by simp
qed

text \<open>
  Claim C7 as stated fails: a status outside 200 to 299 need not be a failure. A server
  that answers 304 to every request gives a non-2xx status on every attempt, and the
  first response is returned.
\<close>

theorem non_2xx_returned_counterexample:
  "\<not> (\<forall>(env :: unit env) url stream timeout w tr.
        (\<forall>w'. non_2xx_or_error (fst (session_get env w' url stream timeout))) \<longrightarrow>
        fst (make_request_with_retries env url stream timeout (w, tr)) = None)"
proof
  let ?env = "static_env (\<lambda>u. Responded \<lparr>status_code = 304, resp_text = []\<rparr>)"
  assume "\<forall>(env :: unit env) url stream timeout w tr.
        (\<forall>w'. non_2xx_or_error (fst (session_get env w' url stream timeout))) \<longrightarrow>
        fst (make_request_with_retries env url stream timeout (w, tr)) = None"
  moreover have "\<forall>w'. non_2xx_or_error (fst (session_get ?env w' ''https://x/'' False 15))"
    by (simp add: static_env_def non_2xx_or_error_def)
  ultimately have "fst (make_request_with_retries ?env ''https://x/'' False 15 ((), [])) = None"
    by blast
  moreover have "fst (make_request_with_retries ?env ''https://x/'' False 15 ((), []))
     = Some \<lparr>status_code = 304, resp_text = []\<rparr>"
    by (simp add: make_request_attempts_list static_env_def raise_for_status_def)
  ultimately show False by simp
qed

section \<open>Traces of the fetcher and of the downloader\<close>

lemma request_attempts_Cons:
  assumes "session_get env w url stream timeout = (outcome, w1)"
  shows "request_attempts env url stream timeout (attempt # atts) (w, tr) =
     (if \<not> attempt_failed outcome
      then ((case outcome of Responded r \<Rightarrow> Some r | RequestException \<Rightarrow> None),
            w1, tr @ [Get url stream timeout outcome])
      else if attempt + 1 = RETRIES then (None, w1, tr @ [Get url stream timeout outcome])
      else request_attempts env url stream timeout atts
             (sleep env w1 (of_nat (sleep_time attempt)),
              tr @ [Get url stream timeout outcome, Sleep (of_nat (sleep_time attempt))]))"
  using assms by (cases outcome) (simp_all add: attempt_failed_def)

lemma request_attempts_trace:
  "\<exists>ext. snd (snd (request_attempts env url stream timeout atts (w, tr))) = tr @ ext
         \<and> list_all get_or_sleep ext
         \<and> (atts \<noteq> [] \<longrightarrow> (\<exists>outcome rest. ext = Get url stream timeout outcome # rest))"
proof (induction atts arbitrary: w tr)
  case Nil
  then show ?case by simp
next
  case (Cons attempt atts)
  obtain o0 w1 where g0: "session_get env w url stream timeout = (o0, w1)"
    by force
  let ?G = "Get url stream timeout o0"
  let ?S = "Sleep (of_nat (sleep_time attempt))"
  from Cons.IH [of "sleep env w1 (of_nat (sleep_time attempt))" "tr @ [?G, ?S]"]
  obtain ext where ext:
    "snd (snd (request_attempts env url stream timeout atts
        (sleep env w1 (of_nat (sleep_time attempt)), tr @ [?G, ?S]))) = (tr @ [?G, ?S]) @ ext"
    "list_all get_or_sleep ext"
    by blast
  have G: "get_or_sleep ?G" and S: "get_or_sleep ?S"
    by (simp_all add: get_or_sleep_def)
  have "snd (snd (request_attempts env url stream timeout (attempt # atts) (w, tr))) = tr @ [?G]
      \<or> snd (snd (request_attempts env url stream timeout (attempt # atts) (w, tr))) =
            tr @ ?G # ?S # ext"
    unfolding request_attempts_Cons [OF g0] using ext(1) by simp
  then consider (stop) "snd (snd (request_attempts env url stream timeout (attempt # atts) (w, tr))) = tr @ [?G]"
    | (go) "snd (snd (request_attempts env url stream timeout (attempt # atts) (w, tr))) =
            tr @ ?G # ?S # ext"
    by blast
  then show ?case
  proof cases
    case stop
    then show ?thesis using G by auto
  next
    case go
    then show ?thesis using G S ext(2) by auto
  qed
qed

lemma make_request_trace:
  "\<exists>outcome rest. snd (snd (make_request_with_retries env url stream timeout (w, tr))) =
      tr @ Get url stream timeout outcome # rest \<and> list_all get_or_sleep rest"
proof -
  from request_attempts_trace [of env url stream timeout "[0, 1, 2]" w tr]
  obtain outcome rest where
    "snd (snd (request_attempts env url stream timeout [0, 1, 2] (w, tr))) =
       tr @ Get url stream timeout outcome # rest"
    "list_all get_or_sleep (Get url stream timeout outcome # rest)"
    by auto
  then show ?thesis
    by (auto simp: make_request_attempts_list)
qed

text \<open>A response that is returned was the answer to a GET of that URL.\<close>

lemma request_attempts_Some:
  "fst (request_attempts env url stream timeout atts (w, tr)) = Some r \<Longrightarrow>
   \<exists>w0 w1. session_get env w0 url stream timeout = (Responded r, w1)"
proof (induction atts arbitrary: w tr)
  case Nil
  then show ?case by simp
next
  case (Cons attempt atts)
  obtain o0 w1 where g0: "session_get env w url stream timeout = (o0, w1)"
    by force
  show ?case
  proof (cases "attempt_failed o0")
    case False
    with Cons.prems have "o0 = Responded r"
      by (cases o0) (auto simp: request_attempts_Cons [OF g0] simp del: request_attempts.simps)
    with g0 show ?thesis by blast
  next
    case True
    with Cons.prems have "fst (request_attempts env url stream timeout atts
             (sleep env w1 (of_nat (sleep_time attempt)),
              tr @ [Get url stream timeout o0, Sleep (of_nat (sleep_time attempt))])) = Some r"
      by (auto simp: request_attempts_Cons [OF g0] simp del: request_attempts.simps split: if_splits)
    then show ?thesis by (rule Cons.IH)
  qed
qed

lemma make_request_Some:
  "make_request_with_retries env url stream timeout io = (Some r, io1) \<Longrightarrow>
   \<exists>w0 w1. session_get env w0 url stream timeout = (Responded r, w1)"
  using request_attempts_Some [of env url stream timeout "[0 ..< RETRIES]" "fst io" "snd io" r]
  by (simp add: make_request_with_retries_def)

text \<open>The events of a download: the GETs and sleeps of the fetch, then at most one file
  write, which is the last event and tells the result.\<close>

lemma download_pdf_trace:
  assumes "download_pdf env pdf_url download_folder (w, tr) = (ok, w1, tr1)"
  shows "\<exists>outcome rest. list_all get_or_sleep rest
           \<and> (tr1 = tr @ Get pdf_url True 30 outcome # rest \<and> \<not> ok
              \<or> (\<exists>file_path. tr1 = tr @ Get pdf_url True 30 outcome # rest
                                   @ [Write_File pdf_url file_path ok]))"
proof -
  obtain res w2 tr2 where m: "make_request_with_retries env pdf_url True 30 (w, tr) = (res, w2, tr2)"
    by (metis prod_cases3)
  from make_request_trace [of env pdf_url True 30 w tr] m
  obtain outcome rest where t: "tr2 = tr @ Get pdf_url True 30 outcome # rest"
    "list_all get_or_sleep rest"
    by auto
  show ?thesis
    using assms m t
    by (auto simp: download_pdf_def Let_def split: option.splits sum.splits prod.splits)
qed

section \<open>The classification of a link\<close>

lemma process_absolute_url_pdf:
  assumes "urldefrag absolute_url = Inr (normalized, frag)"
    and "endswith (lower absolute_url) ''.pdf''"
    and "absolute_url \<notin> downloaded_pdf_urls s"
    and "download_pdf env absolute_url download_folder
           (world s, trace s @ [Found_PDF current_url absolute_url]) = (ok, w1, tr1)"
  shows "process_absolute_url env start_url download_folder current_url absolute_url s =
           Inr (s\<lparr>downloaded_pdf_urls :=
                     (if ok then insert absolute_url (downloaded_pdf_urls s)
                      else downloaded_pdf_urls s),
                  world := w1, trace := tr1\<rparr>)"
  using assms by (simp add: process_absolute_url_def)

lemma process_absolute_url_page:
  assumes "urldefrag absolute_url = Inr (normalized, frag)"
    and "\<not> endswith (lower absolute_url) ''.pdf''"
  shows "process_absolute_url env start_url download_folder current_url absolute_url s =
           Inr (if startswith normalized start_url \<and> normalized \<notin> visited_urls s
                   \<and> absolute_url \<notin> set (urls_to_visit s)
                then s\<lparr>urls_to_visit := urls_to_visit s @ [absolute_url]\<rparr> else s)"
  using assms by (simp add: process_absolute_url_def)

text \<open>
  Claim C10. The scope test stands in the \<open>elif\<close> branch only. A resolved link whose
  fragment can be stripped, that ends in \<open>.pdf\<close> whatever the case of its letters and
  that is not in the downloaded set is downloaded, for every start URL, in scope or not:
  the log line and a streamed GET of the link follow in the trace, and the link joins the
  downloaded set exactly when \<open>download_pdf\<close> returns \<open>True\<close>.
\<close>

theorem pdf_download_ignores_scope:
  assumes "urldefrag absolute_url = Inr (normalized, frag)"
    and "endswith (lower absolute_url) ''.pdf''"
    and "absolute_url \<notin> downloaded_pdf_urls s"
  shows "\<exists>ok w1 tr1 outcome rest.
           download_pdf env absolute_url download_folder
             (world s, trace s @ [Found_PDF current_url absolute_url]) = (ok, w1, tr1)
           \<and> tr1 = trace s @ Found_PDF current_url absolute_url
                       # Get absolute_url True 30 outcome # rest
           \<and> process_absolute_url env start_url download_folder current_url absolute_url s =
               Inr (s\<lparr>downloaded_pdf_urls :=
                         (if ok then insert absolute_url (downloaded_pdf_urls s)
                          else downloaded_pdf_urls s),
                      world := w1, trace := tr1\<rparr>)"
proof -
  obtain ok w1 tr1 where d: "download_pdf env absolute_url download_folder
             (world s, trace s @ [Found_PDF current_url absolute_url]) = (ok, w1, tr1)"
    by (metis prod_cases3)
  from download_pdf_trace [OF d]
  obtain outcome rest where
    "tr1 = trace s @ Found_PDF current_url absolute_url # Get absolute_url True 30 outcome # rest"
    by auto
  with d process_absolute_url_pdf [OF assms d] show ?thesis
    by blast
qed

theorem pdf_download_ignores_scope_witness:
  "urldefrag ''https://other.example/files/Report.PDF'' =
      Inr (''https://other.example/files/Report.PDF'', [])
   \<and> endswith (lower ''https://other.example/files/Report.PDF'') ''.pdf''
   \<and> ''https://other.example/files/Report.PDF'' \<notin> downloaded_pdf_urls (initial_state ''https://site.example/section/'' ())
   \<and> \<not> startswith ''https://other.example/files/Report.PDF'' ''https://site.example/section/''
   \<and> (\<exists>rest. trace (state_of (process_absolute_url blank_env ''https://site.example/section/''
        ''pdf_downloads'' ''https://site.example/section/''
        ''https://other.example/files/Report.PDF''
        (initial_state ''https://site.example/section/'' ()))) =
       Found_PDF ''https://site.example/section/'' ''https://other.example/files/Report.PDF''
        # Get ''https://other.example/files/Report.PDF'' True 30 (page []) # rest)"
proof -
  let ?a = "''https://other.example/files/Report.PDF''"
  let ?s = "initial_state ''https://site.example/section/'' ()"
  have h1: "urldefrag ?a = Inr (?a, [])"
    by (simp add: urldefrag_def)
  have h2: "endswith (lower ?a) ''.pdf''"
    by code_simp
  have h3: "?a \<notin> downloaded_pdf_urls ?s"
    by (simp add: initial_state_def)
  have h4: "\<not> startswith ?a ''https://site.example/section/''"
    by (simp add: startswith_def)
  from pdf_download_ignores_scope [OF h1 h2 h3, of blank_env "''pdf_downloads''"
      "''https://site.example/section/''" "''https://site.example/section/''"]
  obtain ok w1 tr1 outcome rest where
    d: "download_pdf blank_env ?a ''pdf_downloads''
             (world ?s, trace ?s @ [Found_PDF ''https://site.example/section/'' ?a]) = (ok, w1, tr1)"
    and t: "tr1 = trace ?s @ Found_PDF ''https://site.example/section/'' ?a
                       # Get ?a True 30 outcome # rest"
    and p: "process_absolute_url blank_env ''https://site.example/section/''
        ''pdf_downloads'' ''https://site.example/section/'' ?a ?s =
               Inr (?s\<lparr>downloaded_pdf_urls :=
                         (if ok then insert ?a (downloaded_pdf_urls ?s)
                          else downloaded_pdf_urls ?s),
                      world := w1, trace := tr1\<rparr>)"
    by blast
  have "download_pdf blank_env ?a ''pdf_downloads''
          (world ?s, trace ?s @ [Found_PDF ''https://site.example/section/'' ?a]) =
        (True, (), [Found_PDF ''https://site.example/section/'' ?a,
                    Get ?a True 30 (page []),
                    Write_File ?a ''pdf_downloads/Report.PDF'' True])"
    by code_simp
  with d t have "outcome = page []"
    by (simp add: initial_state_def)
  with p t h1 h2 h3 h4 show ?thesis
    by (simp add: state_of_def initial_state_def)
qed

text \<open>
  Claim C9, as the code has it. The PDF test reads the whole resolved URL, fragment and
  query included. A link that does not end in \<open>.pdf\<close> as a whole string, such as
  \<open>https://x/doc.pdf#page=3\<close> and \<open>https://x/doc.pdf?v=2\<close>, is not a PDF for the
  crawler: nothing is downloaded, and the link is appended to the frontier exactly when
  its fragment-stripped form starts with the start URL and is not visited and the link
  is not in the frontier already.
\<close>

theorem pdf_test_on_full_url:
  assumes "urldefrag absolute_url = Inr (normalized, frag)"
    and "\<not> endswith (lower absolute_url) ''.pdf''"
  shows "process_absolute_url env start_url download_folder current_url absolute_url s =
           Inr (if startswith normalized start_url \<and> normalized \<notin> visited_urls s
                   \<and> absolute_url \<notin> set (urls_to_visit s)
                then s\<lparr>urls_to_visit := urls_to_visit s @ [absolute_url]\<rparr> else s)
         \<and> \<not> endswith (lower ''https://x/doc.pdf#page=3'') ''.pdf''
         \<and> \<not> endswith (lower ''https://x/doc.pdf?v=2'') ''.pdf''"
proof -
  have "\<not> endswith (lower ''https://x/doc.pdf#page=3'') ''.pdf''"
    by code_simp
  moreover have "\<not> endswith (lower ''https://x/doc.pdf?v=2'') ''.pdf''"
    by code_simp
  ultimately show ?thesis
    by (intro conjI process_absolute_url_page [OF assms])
qed

theorem pdf_test_on_full_url_witness:
  "urldefrag ''https://x/doc.pdf#page=3'' = Inr (''https://x/doc.pdf'', ''page=3'')
   \<and> \<not> endswith (lower ''https://x/doc.pdf#page=3'') ''.pdf''
   \<and> process_absolute_url blank_env ''https://x/'' ''pdf_downloads'' ''https://x/''
        ''https://x/doc.pdf#page=3''
        \<lparr>urls_to_visit = [], visited_urls = {''https://x/''}, downloaded_pdf_urls = {},
         world = (), trace = []\<rparr> =
       Inr \<lparr>urls_to_visit = [''https://x/doc.pdf#page=3''], visited_urls = {''https://x/''},
            downloaded_pdf_urls = {}, world = (), trace = []\<rparr>"
proof -
  have h1: "urldefrag ''https://x/doc.pdf#page=3'' = Inr (''https://x/doc.pdf'', ''page=3'')"
    by code_simp
  have h2: "\<not> endswith (lower ''https://x/doc.pdf#page=3'') ''.pdf''"
    by code_simp
  have h3: "startswith ''https://x/doc.pdf'' ''https://x/''"
    by (simp add: startswith_def)
  from pdf_test_on_full_url [OF h1 h2, of blank_env "''https://x/''" "''pdf_downloads''"
      "''https://x/''" "\<lparr>urls_to_visit = [], visited_urls = {''https://x/''},
         downloaded_pdf_urls = {}, world = (), trace = []\<rparr>"] h1 h2 h3
  show ?thesis by simp
qed

text \<open>
  Claim C9 as stated fails: a path that ends in \<open>.pdf\<close> followed by a query does not
  keep the link from being a PDF when the query ends in \<open>.pdf\<close> too. The link
  \<open>https://x/doc.pdf?v=.pdf\<close> is downloaded.
\<close>

theorem pdf_with_query_counterexample:
  "build_absolute_url ''https://x/'' ''doc.pdf?v=.pdf'' = Inr ''https://x/doc.pdf?v=.pdf''
   \<and> \<not> (\<forall>(env :: unit env) start_url download_folder current_url absolute_url parsed s.
         urlparse absolute_url [] = Inr parsed \<longrightarrow>
         endswith (lower (path parsed)) ''.pdf'' \<longrightarrow>
         query parsed \<noteq> [] \<or> fragment parsed \<noteq> [] \<longrightarrow>
         trace (state_of (process_absolute_url env start_url download_folder current_url
                            absolute_url s)) = trace s)"
proof
  show "build_absolute_url ''https://x/'' ''doc.pdf?v=.pdf'' = Inr ''https://x/doc.pdf?v=.pdf''"
    by code_simp
next
  let ?a = "''https://x/doc.pdf?v=.pdf''"
  let ?s = "initial_state ''https://x/'' ()"
  show "\<not> (\<forall>(env :: unit env) start_url download_folder current_url absolute_url parsed s.
         urlparse absolute_url [] = Inr parsed \<longrightarrow>
         endswith (lower (path parsed)) ''.pdf'' \<longrightarrow>
         query parsed \<noteq> [] \<or> fragment parsed \<noteq> [] \<longrightarrow>
         trace (state_of (process_absolute_url env start_url download_folder current_url
                            absolute_url s)) = trace s)"
  proof
    assume a: "\<forall>(env :: unit env) start_url download_folder current_url absolute_url parsed s.
         urlparse absolute_url [] = Inr parsed \<longrightarrow>
         endswith (lower (path parsed)) ''.pdf'' \<longrightarrow>
         query parsed \<noteq> [] \<or> fragment parsed \<noteq> [] \<longrightarrow>
         trace (state_of (process_absolute_url env start_url download_folder current_url
                            absolute_url s)) = trace s"
    have p: "urlparse ?a [] = Inr \<lparr>scheme = ''https'', netloc = ''x'', path = ''/doc.pdf'',
        params = [], query = ''v=.pdf'', fragment = []\<rparr>"
      by code_simp
    have e: "endswith (lower ''/doc.pdf'') ''.pdf''"
      by code_simp
    from a [rule_format, OF p] e
    have "trace (state_of (process_absolute_url blank_env ''https://x/'' ''pdf_downloads''
            ''https://x/'' ?a ?s)) = trace ?s"
      by simp
    moreover have "process_absolute_url blank_env ''https://x/'' ''pdf_downloads''
            ''https://x/'' ?a ?s =
          Inr \<lparr>urls_to_visit = [''https://x/''], visited_urls = {},
               downloaded_pdf_urls = {?a}, world = (),
               trace = [Found_PDF ''https://x/'' ?a, Get ?a True 30 (page []),
                        Write_File ?a ''pdf_downloads/doc.pdf'' True]\<rparr>"
      by code_simp
    ultimately show False
      by (simp add: state_of_def initial_state_def)
  qed
qed

text \<open>
  Claim C2, as the code has it. With the start URL \<open>https://site.example/section/\<close>, a
  link that is not a PDF and whose fragment-stripped form is
  \<open>https://site.example/section/sub\<close> is appended to the frontier when it is new (that
  form not visited, the link not in the frontier); \<open>https://site.example/other\<close> is
  discarded, and so is \<open>https://site.example.evil.com/section/\<close>, which does not start
  with the start URL. The test is on the characters only: with the start URL
  \<open>https://site.example\<close> that link of another host is in scope.
\<close>

theorem scope_filter_is_prefix_test:
  "(\<forall>absolute_url frag.
      urldefrag absolute_url = Inr (''https://site.example/section/sub'', frag) \<longrightarrow>
      \<not> endswith (lower absolute_url) ''.pdf'' \<longrightarrow>
      ''https://site.example/section/sub'' \<notin> visited_urls s \<longrightarrow>
      absolute_url \<notin> set (urls_to_visit s) \<longrightarrow>
      process_absolute_url env ''https://site.example/section/'' download_folder current_url
          absolute_url s =
        Inr (s\<lparr>urls_to_visit := urls_to_visit s @ [absolute_url]\<rparr>))
   \<and> process_absolute_url env ''https://site.example/section/'' download_folder current_url
        ''https://site.example/other'' s = Inr s
   \<and> process_absolute_url env ''https://site.example/section/'' download_folder current_url
        ''https://site.example.evil.com/section/'' s = Inr s
   \<and> (''https://site.example.evil.com/section/'' \<notin> visited_urls s \<longrightarrow>
      ''https://site.example.evil.com/section/'' \<notin> set (urls_to_visit s) \<longrightarrow>
      process_absolute_url env ''https://site.example'' download_folder current_url
          ''https://site.example.evil.com/section/'' s =
        Inr (s\<lparr>urls_to_visit := urls_to_visit s @ [''https://site.example.evil.com/section/'']\<rparr>))"
proof (intro conjI allI impI)
  fix absolute_url frag
  assume "urldefrag absolute_url = Inr (''https://site.example/section/sub'', frag)"
    "\<not> endswith (lower absolute_url) ''.pdf''"
    "''https://site.example/section/sub'' \<notin> visited_urls s"
    "absolute_url \<notin> set (urls_to_visit s)"
  then show "process_absolute_url env ''https://site.example/section/'' download_folder
      current_url absolute_url s = Inr (s\<lparr>urls_to_visit := urls_to_visit s @ [absolute_url]\<rparr>)"
    by (simp add: process_absolute_url_page startswith_def)
next
  have d: "urldefrag ''https://site.example/other'' = Inr (''https://site.example/other'', [])"
    by (simp add: urldefrag_def)
  have e: "\<not> endswith (lower ''https://site.example/other'') ''.pdf''"
    by code_simp
  show "process_absolute_url env ''https://site.example/section/'' download_folder current_url
        ''https://site.example/other'' s = Inr s"
    by (simp add: process_absolute_url_page [OF d e] startswith_def)
next
  have d: "urldefrag ''https://site.example.evil.com/section/'' =
      Inr (''https://site.example.evil.com/section/'', [])"
    by (simp add: urldefrag_def)
  have e: "\<not> endswith (lower ''https://site.example.evil.com/section/'') ''.pdf''"
    by code_simp
  show "process_absolute_url env ''https://site.example/section/'' download_folder current_url
        ''https://site.example.evil.com/section/'' s = Inr s"
    by (simp add: process_absolute_url_page [OF d e] startswith_def)
  assume "''https://site.example.evil.com/section/'' \<notin> visited_urls s"
    "''https://site.example.evil.com/section/'' \<notin> set (urls_to_visit s)"
  then show "process_absolute_url env ''https://site.example'' download_folder current_url
          ''https://site.example.evil.com/section/'' s =
        Inr (s\<lparr>urls_to_visit := urls_to_visit s @ [''https://site.example.evil.com/section/'']\<rparr>)"
    by (simp add: process_absolute_url_page [OF d e] startswith_def)
qed

theorem scope_filter_is_prefix_test_witness:
  "urldefrag ''https://site.example/section/sub#top'' = Inr (''https://site.example/section/sub'', ''top'')
   \<and> \<not> endswith (lower ''https://site.example/section/sub#top'') ''.pdf''
   \<and> process_absolute_url blank_env ''https://site.example/section/'' ''pdf_downloads''
        ''https://site.example/section/'' ''https://site.example/section/sub#top''
        \<lparr>urls_to_visit = [], visited_urls = {''https://site.example/section/''},
         downloaded_pdf_urls = {}, world = (), trace = []\<rparr> =
       Inr \<lparr>urls_to_visit = [''https://site.example/section/sub#top''],
            visited_urls = {''https://site.example/section/''},
            downloaded_pdf_urls = {}, world = (), trace = []\<rparr>
   \<and> process_absolute_url blank_env ''https://site.example'' ''pdf_downloads''
        ''https://site.example'' ''https://site.example.evil.com/section/''
        \<lparr>urls_to_visit = [], visited_urls = {''https://site.example''},
         downloaded_pdf_urls = {}, world = (), trace = []\<rparr> =
       Inr \<lparr>urls_to_visit = [''https://site.example.evil.com/section/''],
            visited_urls = {''https://site.example''},
            downloaded_pdf_urls = {}, world = (), trace = []\<rparr>"
proof -
  let ?s = "\<lparr>urls_to_visit = [], visited_urls = {''https://site.example/section/''},
         downloaded_pdf_urls = {}, world = (), trace = []\<rparr>"
  let ?s' = "\<lparr>urls_to_visit = [], visited_urls = {''https://site.example''},
         downloaded_pdf_urls = {}, world = (), trace = []\<rparr>"
  have h1: "urldefrag ''https://site.example/section/sub#top'' =
      Inr (''https://site.example/section/sub'', ''top'')"
    by code_simp
  have h2: "\<not> endswith (lower ''https://site.example/section/sub#top'') ''.pdf''"
    by code_simp
  have h3: "''https://site.example/section/sub'' \<notin> visited_urls ?s"
    by simp
  have h4: "''https://site.example/section/sub#top'' \<notin> set (urls_to_visit ?s)"
    by simp
  have h5: "''https://site.example.evil.com/section/'' \<notin> visited_urls ?s'"
    by simp
  have h6: "''https://site.example.evil.com/section/'' \<notin> set (urls_to_visit ?s')"
    by simp
  note a = scope_filter_is_prefix_test [of ?s blank_env "''pdf_downloads''"
      "''https://site.example/section/''", THEN conjunct1, rule_format, OF h1 h2 h3 h4]
  note b = scope_filter_is_prefix_test [of ?s' blank_env "''pdf_downloads''"
      "''https://site.example''", THEN conjunct2, THEN conjunct2, THEN conjunct2, rule_format,
      OF h5 h6]
  from a b h1 h2 show ?thesis by simp
qed

text \<open>
  Claim C2 as stated fails: with the start URL \<open>https://site.example/section/\<close> the
  link \<open>https://site.example.evil.com/section/\<close> is discarded, the frontier stays as it
  was.
\<close>

theorem evil_host_discarded_counterexample:
  "process_absolute_url blank_env ''https://site.example/section/'' ''pdf_downloads''
        ''https://site.example/section/'' ''https://site.example.evil.com/section/''
        \<lparr>urls_to_visit = [], visited_urls = {''https://site.example/section/''},
         downloaded_pdf_urls = {}, world = (), trace = []\<rparr> =
       Inr \<lparr>urls_to_visit = [], visited_urls = {''https://site.example/section/''},
            downloaded_pdf_urls = {}, world = (), trace = []\<rparr>
   \<and> \<not> startswith ''https://site.example.evil.com/section/'' ''https://site.example/section/''"
  by code_simp

section \<open>Filters of the trace\<close>

lemma page_fetches_append [simp]:
  "page_fetches (xs @ ys) = page_fetches xs @ page_fetches ys"
  by (simp add: page_fetches_def)

lemma page_fetches_simps [simp]:
  "page_fetches [] = []"
  "page_fetches (Crawling u # tr) = u # page_fetches tr"
  "page_fetches (Sleep d # tr) = page_fetches tr"
  "page_fetches (Get u st tmo outcome # tr) = page_fetches tr"
  "page_fetches (Found_PDF c u # tr) = page_fetches tr"
  "page_fetches (Write_File u p ok # tr) = page_fetches tr"
  by (simp_all add: page_fetches_def)

lemma page_fetches_get_or_sleep:
  "list_all get_or_sleep xs \<Longrightarrow> page_fetches xs = []"
  by (induction xs) (auto simp: get_or_sleep_def split: event.splits)

lemma file_writes_append [simp]:
  "file_writes a (xs @ ys) = file_writes a xs @ file_writes a ys"
  by (simp add: file_writes_def)

lemma file_writes_simps [simp]:
  "file_writes a [] = []"
  "file_writes a (Crawling u # tr) = file_writes a tr"
  "file_writes a (Sleep d # tr) = file_writes a tr"
  "file_writes a (Get u st tmo outcome # tr) = file_writes a tr"
  "file_writes a (Found_PDF c u # tr) = file_writes a tr"
  "file_writes a (Write_File u p ok # tr) =
     (if u = a then Write_File u p ok # file_writes a tr else file_writes a tr)"
  by (simp_all add: file_writes_def)

lemma file_writes_get_or_sleep:
  "list_all get_or_sleep xs \<Longrightarrow> file_writes a xs = []"
  by (induction xs) (auto simp: get_or_sleep_def split: event.splits)

lemma successful_writes_append [simp]:
  "successful_writes a (xs @ ys) = successful_writes a xs @ successful_writes a ys"
  by (simp add: successful_writes_def)

lemma successful_writes_simps [simp]:
  "successful_writes a [] = []"
  "successful_writes a (Crawling u # tr) = successful_writes a tr"
  "successful_writes a (Sleep d # tr) = successful_writes a tr"
  "successful_writes a (Get u st tmo outcome # tr) = successful_writes a tr"
  "successful_writes a (Found_PDF c u # tr) = successful_writes a tr"
  "successful_writes a (Write_File u p ok # tr) =
     (if u = a \<and> ok then Write_File u p ok # successful_writes a tr else successful_writes a tr)"
  by (simp_all add: successful_writes_def)

lemma successful_writes_get_or_sleep:
  "list_all get_or_sleep xs \<Longrightarrow> successful_writes a xs = []"
  by (induction xs) (auto simp: get_or_sleep_def split: event.splits)

lemma successful_writes_file_writes:
  "successful_writes a (file_writes a tr) = successful_writes a tr"
  by (induction tr) (auto simp: file_writes_def successful_writes_def split: event.splits)

section \<open>What a download does to the state\<close>

text \<open>The page events, the visited set and the frontier stay; the trace grows by the
  log line, GETs and sleeps and at most one file write, the last event, which is a
  successful one exactly when the download returns \<open>True\<close>.\<close>

lemma download_pdf_effect:
  assumes "download_pdf env a download_folder (w, tr @ [Found_PDF c a]) = (ok, w1, tr1)"
  shows "\<exists>ext. tr1 = tr @ ext \<and> page_fetches ext = []
           \<and> (\<forall>b. b \<noteq> a \<longrightarrow> file_writes b ext = [])
           \<and> (if ok then \<exists>file_path. file_writes a ext = [Write_File a file_path True]
               else successful_writes a ext = [] \<and> length (file_writes a ext) \<le> 1)"
proof -
  from download_pdf_trace [OF assms]
  obtain outcome rest where r: "list_all get_or_sleep rest"
    and c: "tr1 = (tr @ [Found_PDF c a]) @ Get a True 30 outcome # rest \<and> \<not> ok
       \<or> (\<exists>file_path. tr1 = (tr @ [Found_PDF c a]) @ Get a True 30 outcome # rest
                                   @ [Write_File a file_path ok])"
    by blast
  note f = page_fetches_get_or_sleep [OF r] file_writes_get_or_sleep [OF r]
    successful_writes_get_or_sleep [OF r]
  from c show ?thesis
  proof
    assume "tr1 = (tr @ [Found_PDF c a]) @ Get a True 30 outcome # rest \<and> \<not> ok"
    then show ?thesis
      using f by (intro exI [of _ "Found_PDF c a # Get a True 30 outcome # rest"]) simp
  next
    assume "\<exists>file_path. tr1 = (tr @ [Found_PDF c a]) @ Get a True 30 outcome # rest
                                   @ [Write_File a file_path ok]"
    then obtain file_path where "tr1 = (tr @ [Found_PDF c a]) @ Get a True 30 outcome # rest
                                   @ [Write_File a file_path ok]"
      by blast
    then show ?thesis
      using f
      by (intro exI [of _ "Found_PDF c a # Get a True 30 outcome # rest @ [Write_File a file_path ok]"])
         simp
  qed
qed


section \<open>What the handling of a link does to the state\<close>

lemma process_absolute_url_cases:
  obtains (raise) e where "urldefrag a = Inl e"
      "process_absolute_url env st f cur a s = Inl (e, s)"
    | (skip) "process_absolute_url env st f cur a s = Inr s"
    | (download) ok w1 tr1 where "a \<notin> downloaded_pdf_urls s"
      "download_pdf env a f (world s, trace s @ [Found_PDF cur a]) = (ok, w1, tr1)"
      "process_absolute_url env st f cur a s =
         Inr (s\<lparr>downloaded_pdf_urls :=
                   (if ok then insert a (downloaded_pdf_urls s) else downloaded_pdf_urls s),
                world := w1, trace := tr1\<rparr>)"
    | (enqueue) v where "strips_to v a" "v \<notin> visited_urls s" "startswith v st"
      "a \<notin> set (urls_to_visit s)"
      "process_absolute_url env st f cur a s = Inr (s\<lparr>urls_to_visit := urls_to_visit s @ [a]\<rparr>)"
proof (cases "urldefrag a")
  case (Inl e)
  then show ?thesis using raise by (simp add: process_absolute_url_def)
next
  case (Inr p)
  obtain v frag where p: "p = (v, frag)" by (cases p)
  obtain ok w1 tr1 where d: "download_pdf env a f (world s, trace s @ [Found_PDF cur a]) = (ok, w1, tr1)"
    by (metis prod_cases3)
  show ?thesis
  proof (cases "endswith (lower a) ''.pdf''")
    case True
    then show ?thesis
      using Inr p d skip download [OF _ d] by (cases "a \<in> downloaded_pdf_urls s")
        (simp_all add: process_absolute_url_def)
  next
    case False
    have "strips_to v a" using Inr p by (simp add: strips_to_def)
    then show ?thesis
      using False Inr p skip enqueue [of v]
      by (cases "startswith v st \<and> v \<notin> visited_urls s \<and> a \<notin> set (urls_to_visit s)")
         (auto simp add: process_absolute_url_def)
  qed
qed

lemma process_absolute_url_visited:
  "visited_urls (state_of (process_absolute_url env st f cur a s)) = visited_urls s"
  by (cases rule: process_absolute_url_cases [of a env st f cur s]) (simp_all add: state_of_def)

lemma process_absolute_url_fetches:
  "page_fetches (trace (state_of (process_absolute_url env st f cur a s))) = page_fetches (trace s)"
proof (cases rule: process_absolute_url_cases [of a env st f cur s])
  case (download ok w1 tr1)
  from download_pdf_effect [OF download(2)] show ?thesis
    using download(3) by (auto simp: state_of_def)
qed (simp_all add: state_of_def)

lemma process_absolute_url_frontier:
  "urls_to_visit (state_of (process_absolute_url env st f cur a s)) = urls_to_visit s
   \<or> urls_to_visit (state_of (process_absolute_url env st f cur a s)) = urls_to_visit s @ [a]
      \<and> a \<notin> set (urls_to_visit s)
      \<and> (\<exists>v. strips_to v a \<and> v \<notin> visited_urls s \<and> startswith v st)"
  by (cases rule: process_absolute_url_cases [of a env st f cur s]) (auto simp add: state_of_def)

lemma process_absolute_url_downloads_ok:
  assumes "downloads_ok s"
  shows "downloads_ok (state_of (process_absolute_url env st f cur a s))"
proof (cases rule: process_absolute_url_cases [of a env st f cur s])
  case (download ok w1 tr1)
  from download_pdf_effect [OF download(2)]
  obtain ext where ext: "tr1 = trace s @ ext"
    "\<And>b. b \<noteq> a \<Longrightarrow> file_writes b ext = []"
    "if ok then \<exists>file_path. file_writes a ext = [Write_File a file_path True]
     else successful_writes a ext = [] \<and> length (file_writes a ext) \<le> 1"
    by blast
  have none: "successful_writes a (trace s) = []"
    using assms download(1) by (auto simp: downloads_ok_def)
  have other: "successful_writes b ext = []" if "b \<noteq> a" for b
    using ext(2) [OF that] successful_writes_file_writes [of b ext] by simp
  let ?s' = "s\<lparr>downloaded_pdf_urls :=
                   (if ok then insert a (downloaded_pdf_urls s) else downloaded_pdf_urls s),
                world := w1, trace := tr1\<rparr>"
  have "downloads_ok ?s'"
    unfolding downloads_ok_def
  proof (intro allI conjI)
    fix b
    show "b \<in> downloaded_pdf_urls ?s' \<longleftrightarrow> successful_writes b (trace ?s') \<noteq> []"
    proof (cases "b = a")
      case True
      show ?thesis
      proof (cases ok)
        case True
        with ext(3) obtain file_path where "file_writes a ext = [Write_File a file_path True]"
          by auto
        then have "successful_writes a ext \<noteq> []"
          using successful_writes_file_writes [of a ext] by auto
        with True \<open>b = a\<close> ext(1) show ?thesis by simp
      next
        case False
        with ext(3) \<open>b = a\<close> ext(1) none download(1) show ?thesis by simp
      qed
    next
      case False
      with other [OF False] ext(1) assms show ?thesis
        by (auto simp: downloads_ok_def)
    qed
    show "successful_writes b (butlast (file_writes b (trace ?s'))) = []"
    proof (cases "b = a")
      case True
      have z: "successful_writes a (file_writes a (trace s)) = []"
        using none by (simp add: successful_writes_file_writes)
      have "length (file_writes a ext) \<le> 1"
        using ext(3) by (auto split: if_splits)
      then consider "file_writes a ext = []" | e where "file_writes a ext = [e]"
        by (cases "file_writes a ext") (auto)
      then show ?thesis
      proof cases
        case 1
        then show ?thesis
          using True ext(1) assms by (simp add: downloads_ok_def)
      next
        case (2 e)
        then show ?thesis
          using True ext(1) z by (simp add: butlast_append)
      qed
    next
      case False
      with ext(2) [OF False] ext(1) assms show ?thesis
        by (simp add: downloads_ok_def)
    qed
  qed
  then show ?thesis using download(3) by (simp add: state_of_def)
next
  case (enqueue v)
  then show ?thesis using assms by (simp add: state_of_def downloads_ok_def)
qed (use assms in \<open>simp_all add: state_of_def\<close>)


section \<open>What the links of a page do to the state\<close>

lemma process_links_preserves:
  assumes step: "\<And>a s. Q s \<Longrightarrow> Q (state_of (process_absolute_url env st f cur a s))"
    and "Q s"
  shows "Q (state_of (process_links env st f cur hrefs s))"
  using \<open>Q s\<close>
proof (induction hrefs arbitrary: s)
  case Nil
  then show ?case by (simp add: state_of_def)
next
  case (Cons h hrefs)
  show ?case
  proof (cases "build_absolute_url cur h")
    case (Inl e)
    then show ?thesis using Cons.prems by (simp add: state_of_def)
  next
    case (Inr a)
    show ?thesis
    proof (cases "process_absolute_url env st f cur a s")
      case (Inl x)
      with step [OF Cons.prems, of a] \<open>build_absolute_url cur h = Inr a\<close>
      show ?thesis by (simp add: state_of_def)
    next
      case (Inr s1)
      with step [OF Cons.prems, of a] have "Q s1" by (simp add: state_of_def)
      from Cons.IH [OF this] Inr \<open>build_absolute_url cur h = Inr a\<close>
      show ?thesis by simp
    qed
  qed
qed

lemma process_links_visited:
  "visited_urls (state_of (process_links env st f cur hrefs s)) = visited_urls s"
  by (rule process_links_preserves [where Q = "\<lambda>t. visited_urls t = visited_urls s"])
     (simp_all add: process_absolute_url_visited)

lemma process_links_fetches:
  "page_fetches (trace (state_of (process_links env st f cur hrefs s))) = page_fetches (trace s)"
  by (rule process_links_preserves
        [where Q = "\<lambda>t. page_fetches (trace t) = page_fetches (trace s)"])
     (simp_all add: process_absolute_url_fetches)

lemma process_links_downloads_ok:
  "downloads_ok s \<Longrightarrow> downloads_ok (state_of (process_links env st f cur hrefs s))"
  by (rule process_links_preserves [where Q = downloads_ok])
     (simp_all add: process_absolute_url_downloads_ok)

lemma process_links_frontier:
  "\<exists>new. urls_to_visit (state_of (process_links env st f cur hrefs s)) = urls_to_visit s @ new
         \<and> new_links st cur hrefs s new"
proof (induction hrefs arbitrary: s)
  case Nil
  then show ?case by (simp add: state_of_def new_links_def)
next
  case (Cons h hrefs)
  show ?case
  proof (cases "build_absolute_url cur h")
    case (Inl e)
    then show ?thesis by (simp add: state_of_def new_links_def)
  next
    case (Inr a)
    let ?r = "process_absolute_url env st f cur a s"
    from process_absolute_url_frontier [of env st f cur a s]
    obtain n1 where n1: "urls_to_visit (state_of ?r) = urls_to_visit s @ n1"
      "n1 = [] \<or> n1 = [a] \<and> a \<notin> set (urls_to_visit s)
        \<and> (\<exists>v. strips_to v a \<and> v \<notin> visited_urls s \<and> startswith v st)"
      by auto
    have l1: "new_links st cur (h # hrefs) s n1"
      using n1(2) Inr by (auto simp: new_links_def)
    show ?thesis
    proof (cases ?r)
      case (Inl x)
      with Inr n1(1) l1 show ?thesis by (auto simp: state_of_def)
    next
      case (Inr s1)
      then have s1: "urls_to_visit s1 = urls_to_visit s @ n1" "visited_urls s1 = visited_urls s"
        using n1(1) process_absolute_url_visited [of env st f cur a s] by (simp_all add: state_of_def)
      from Cons.IH [of s1] obtain n2 where
        n2: "urls_to_visit (state_of (process_links env st f cur hrefs s1)) = urls_to_visit s1 @ n2"
        "new_links st cur hrefs s1 n2"
        by blast
      have "new_links st cur (h # hrefs) s (n1 @ n2)"
        using l1 n2(2) s1 unfolding new_links_def by auto
      with n2(1) s1 Inr \<open>build_absolute_url cur h = Inr a\<close> show ?thesis
        by auto
    qed
  qed
qed

section \<open>What the crawl of a page does to the state\<close>

lemma crawl_page_cases:
  obtains (raise) e where "urldefrag u = Inl e" "crawl_page env st f u s = Inl (e, s)"
    | (seen) v where "strips_to v u" "v \<in> visited_urls s" "crawl_page env st f u s = Inr s"
    | (failed) v w1 tr1 ext where "strips_to v u" "v \<notin> visited_urls s"
        "tr1 = trace s @ Crawling u # ext" "list_all get_or_sleep ext"
        "crawl_page env st f u s =
           Inr (s\<lparr>visited_urls := insert v (visited_urls s), world := w1, trace := tr1\<rparr>)"
    | (fetched) v resp w0 w1 w2 tr1 ext where "strips_to v u" "v \<notin> visited_urls s"
        "tr1 = trace s @ Crawling u # ext" "list_all get_or_sleep ext"
        "session_get env w0 u False 15 = (Responded resp, w1)"
        "crawl_page env st f u s =
           process_links env st f u (find_hrefs env (resp_text resp))
             (s\<lparr>visited_urls := insert v (visited_urls s), world := w2, trace := tr1\<rparr>)"
proof (cases "urldefrag u")
  case (Inl e)
  then show ?thesis using raise by (simp add: crawl_page_def)
next
  case (Inr p)
  obtain v frag where p: "p = (v, frag)" by (cases p)
  have sv: "strips_to v u" using Inr p by (simp add: strips_to_def)
  show ?thesis
  proof (cases "v \<in> visited_urls s")
    case True
    then show ?thesis using seen [OF sv] Inr p by (simp add: crawl_page_def)
  next
    case False
    let ?io = "(sleep env (world s) POLITE_DELAY_SECONDS,
                trace s @ [Crawling u, Sleep POLITE_DELAY_SECONDS])"
    obtain res w2 tr1 where m: "make_request_with_retries env u False 15 ?io = (res, w2, tr1)"
      by (metis prod_cases3)
    from make_request_trace [of env u False 15 "sleep env (world s) POLITE_DELAY_SECONDS"
        "trace s @ [Crawling u, Sleep POLITE_DELAY_SECONDS]"] m
    obtain outcome rest where "tr1 = (trace s @ [Crawling u, Sleep POLITE_DELAY_SECONDS])
        @ Get u False 15 outcome # rest" "list_all get_or_sleep rest"
      by auto
    then have t: "tr1 = trace s @ Crawling u # (Sleep POLITE_DELAY_SECONDS # Get u False 15 outcome # rest)"
      "list_all get_or_sleep (Sleep POLITE_DELAY_SECONDS # Get u False 15 outcome # rest)"
      by (simp_all add: get_or_sleep_def)
    show ?thesis
    proof (cases res)
      case None
      then show ?thesis
        using failed [OF sv False t] Inr p m False by (simp add: crawl_page_def)
    next
      case (Some resp)
      with m make_request_Some obtain w0 w1 where
        "session_get env w0 u False 15 = (Responded resp, w1)"
        by blast
      then show ?thesis
        using fetched [OF sv False t] Inr p m False Some by (simp add: crawl_page_def)
    qed
  qed
qed


lemma strips_to_unique: "strips_to v u \<Longrightarrow> strips_to v' u \<Longrightarrow> v = v'"
  by (auto simp: strips_to_def split: sum.splits)

lemma crawl_page_effect:
  obtains (raise) e where "urldefrag u = Inl e" "crawl_page env st f u s = Inl (e, s)"
    | (seen) v where "strips_to v u" "v \<in> visited_urls s" "crawl_page env st f u s = Inr s"
    | (new) v new where "strips_to v u" "v \<notin> visited_urls s"
        "visited_urls (state_of (crawl_page env st f u s)) = insert v (visited_urls s)"
        "page_fetches (trace (state_of (crawl_page env st f u s))) = page_fetches (trace s) @ [u]"
        "urls_to_visit (state_of (crawl_page env st f u s)) = urls_to_visit s @ new"
        "distinct new"
        "\<And>a. a \<in> set new \<Longrightarrow> a \<notin> set (urls_to_visit s) \<and> a \<in> discoverable_in_scope env st
            \<and> (\<exists>v'. strips_to v' a \<and> v' \<notin> insert v (visited_urls s))"
proof (cases rule: crawl_page_cases [of u env st f s])
  case (raise e)
  then show ?thesis using that(1) by blast
next
  case (seen v)
  then show ?thesis using that(2) by blast
next
  case (failed v w1 tr1 ext)
  have "page_fetches (trace (state_of (crawl_page env st f u s))) = page_fetches (trace s) @ [u]"
    using failed(3,5) page_fetches_get_or_sleep [OF failed(4)] by (simp add: state_of_def)
  with failed show ?thesis
    using that(3) [of v "[]"] by (simp add: state_of_def)
next
  case (fetched v resp w0 w1 w2 tr1 ext)
  let ?s1 = "s\<lparr>visited_urls := insert v (visited_urls s), world := w2, trace := tr1\<rparr>"
  let ?hrefs = "find_hrefs env (resp_text resp)"
  let ?s' = "state_of (crawl_page env st f u s)"
  have s': "?s' = state_of (process_links env st f u ?hrefs ?s1)"
    using fetched(6) by simp
  have v: "visited_urls ?s' = insert v (visited_urls s)"
    unfolding s' by (simp add: process_links_visited)
  have p: "page_fetches (trace ?s') = page_fetches (trace s) @ [u]"
    unfolding s' using fetched(3) page_fetches_get_or_sleep [OF fetched(4)]
    by (simp add: process_links_fetches)
  from process_links_frontier [of env st f u ?hrefs ?s1]
  obtain new where n: "urls_to_visit ?s' = urls_to_visit s @ new" "new_links st u ?hrefs ?s1 new"
    unfolding s' by auto
  have "a \<notin> set (urls_to_visit s) \<and> a \<in> discoverable_in_scope env st
            \<and> (\<exists>v'. strips_to v' a \<and> v' \<notin> insert v (visited_urls s))"
    if "a \<in> set new" for a
  proof -
    from n(2) that obtain h v' where a: "a \<notin> set (urls_to_visit s)" "h \<in> set ?hrefs"
      "build_absolute_url u h = Inr a" "strips_to v' a" "v' \<notin> insert v (visited_urls s)"
      "startswith v' st"
      unfolding new_links_def by auto
    from fetched(5) a(2,3) have "a \<in> discoverable env"
      unfolding discoverable_def by blast
    with a show ?thesis unfolding discoverable_in_scope_def by blast
  qed
  moreover have "distinct new" using n(2) by (simp add: new_links_def)
  ultimately show ?thesis
    using that(3) [OF fetched(1,2) v p n(1)] by blast
qed

lemma downloads_ok_cong:
  assumes "downloaded_pdf_urls s' = downloaded_pdf_urls s"
    and "\<And>a. file_writes a (trace s') = file_writes a (trace s)"
  shows "downloads_ok s' = downloads_ok s"
proof -
  have "successful_writes a (trace s') = successful_writes a (trace s)" for a
    using assms(2) [of a] successful_writes_file_writes [of a "trace s'"]
      successful_writes_file_writes [of a "trace s"] by simp
  then show ?thesis
    using assms unfolding downloads_ok_def by simp
qed

lemma crawl_page_downloads_ok:
  assumes "downloads_ok s"
  shows "downloads_ok (state_of (crawl_page env st f u s))"
proof (cases rule: crawl_page_cases [of u env st f s])
  case (failed v w1 tr1 ext)
  let ?s1 = "s\<lparr>visited_urls := insert v (visited_urls s), world := w1, trace := tr1\<rparr>"
  have "downloads_ok ?s1 = downloads_ok s"
    using failed(3) file_writes_get_or_sleep [OF failed(4)] by (intro downloads_ok_cong) simp_all
  with assms failed(5) show ?thesis by (simp add: state_of_def)
next
  case (fetched v resp w0 w1 w2 tr1 ext)
  let ?s1 = "s\<lparr>visited_urls := insert v (visited_urls s), world := w2, trace := tr1\<rparr>"
  have "downloads_ok ?s1 = downloads_ok s"
    using fetched(3) file_writes_get_or_sleep [OF fetched(4)] by (intro downloads_ok_cong) simp_all
  with assms have "downloads_ok ?s1" by simp
  from process_links_downloads_ok [OF this] fetched(6) show ?thesis by simp
qed (use assms in \<open>simp_all add: state_of_def\<close>)

lemma crawl_page_fetches_ok:
  assumes "fetches_ok s"
  shows "fetches_ok (state_of (crawl_page env st f u s))"
proof (cases rule: crawl_page_effect [of u env st f s])
  case (new v new)
  let ?s' = "state_of (crawl_page env st f u s)"
  have old: "filter (strips_to v) (page_fetches (trace s)) = []"
  proof -
    have "\<not> strips_to v x" if "x \<in> set (page_fetches (trace s))" for x
    proof
      assume "strips_to v x"
      moreover from assms that obtain v' where "strips_to v' x" "v' \<in> visited_urls s"
        unfolding fetches_ok_def by blast
      ultimately show False using new(2) strips_to_unique by blast
    qed
    then show ?thesis by (simp add: filter_empty_conv)
  qed
  show ?thesis
    unfolding fetches_ok_def
  proof (intro conjI allI ballI)
    fix x assume "x \<in> set (page_fetches (trace ?s'))"
    then have "x = u \<or> x \<in> set (page_fetches (trace s))"
      using new(4) by auto
    then show "\<exists>v. strips_to v x \<and> v \<in> visited_urls ?s'"
      using new(1,3) assms unfolding fetches_ok_def by auto
  next
    fix v'
    show "length (filter (strips_to v') (page_fetches (trace ?s'))) \<le> 1"
    proof (cases "strips_to v' u")
      case True
      then have "v' = v" using new(1) strips_to_unique by blast
      then show ?thesis using new(4) old by simp
    next
      case False
      then show ?thesis using new(4) assms unfolding fetches_ok_def by simp
    qed
  qed
qed (use assms in \<open>simp_all add: state_of_def\<close>)

section \<open>Invariants of the main loop\<close>

lemma crawl_steps_preserves:
  assumes page: "\<And>u s. Q s \<Longrightarrow> Q (state_of (crawl_page env st f u s))"
    and pop: "\<And>s u rest. Q s \<Longrightarrow> urls_to_visit s = u # rest \<Longrightarrow> Q (s\<lparr>urls_to_visit := rest\<rparr>)"
    and "Q s"
  shows "Q (state_of (snd (crawl_steps n env st f s)))"
  using \<open>Q s\<close>
proof (induction n arbitrary: s)
  case 0
  then show ?case by (simp add: state_of_def)
next
  case (Suc n)
  show ?case
  proof (cases "urls_to_visit s")
    case Nil
    then show ?thesis using Suc.prems by (simp add: state_of_def)
  next
    case (Cons u rest)
    let ?r = "crawl_page env st f u (s\<lparr>urls_to_visit := rest\<rparr>)"
    have q: "Q (state_of ?r)"
      by (intro page pop [OF Suc.prems Cons])
    show ?thesis
    proof (cases ?r)
      case (Inl x)
      with q Cons show ?thesis by (simp add: state_of_def)
    next
      case (Inr s1)
      with q have "Q s1" by (simp add: state_of_def)
      from Suc.IH [OF this] Inr Cons show ?thesis
        by (auto split: prod.splits)
    qed
  qed
qed


lemma initial_fetches_ok: "fetches_ok (initial_state start_url w)"
  by (simp add: fetches_ok_def initial_state_def)

lemma initial_downloads_ok: "downloads_ok (initial_state start_url w)"
  by (simp add: downloads_ok_def initial_state_def)

lemma crawl_steps_fetches_ok:
  "fetches_ok (state_of (snd (crawl_steps n env st f (initial_state st w))))"
  by (rule crawl_steps_preserves [where Q = fetches_ok])
     (simp_all add: crawl_page_fetches_ok initial_fetches_ok, simp add: fetches_ok_def)

lemma crawl_steps_downloads_ok:
  "downloads_ok (state_of (snd (crawl_steps n env st f (initial_state st w))))"
  by (rule crawl_steps_preserves [where Q = downloads_ok])
     (simp_all add: crawl_page_downloads_ok initial_downloads_ok, simp add: downloads_ok_def)

lemma downloads_ok_once:
  assumes "downloads_ok s"
  shows "length (successful_writes a (trace s)) \<le> 1"
proof (cases "file_writes a (trace s) = []")
  case True
  then show ?thesis
    using successful_writes_file_writes [of a "trace s"] by simp
next
  case False
  then have "file_writes a (trace s) = butlast (file_writes a (trace s)) @ [last (file_writes a (trace s))]"
    by simp
  then have "successful_writes a (file_writes a (trace s)) =
      successful_writes a (butlast (file_writes a (trace s)))
      @ successful_writes a [last (file_writes a (trace s))]"
    by (metis successful_writes_append)
  then have "successful_writes a (trace s) = successful_writes a [last (file_writes a (trace s))]"
    using assms by (simp add: downloads_ok_def successful_writes_file_writes)
  then show ?thesis by (simp add: successful_writes_def)
qed

lemma crawl_page_seen:
  assumes "strips_to v u" "v \<in> visited_urls s"
  shows "crawl_page env st f u s = Inr s"
proof (cases rule: crawl_page_effect [of u env st f s])
  case (raise e)
  with assms(1) show ?thesis by (simp add: strips_to_def)
next
  case (seen v')
  then show ?thesis by simp
next
  case (new v' new)
  with assms strips_to_unique [OF assms(1) new(1)] show ?thesis by simp
qed

lemma crawl_page_new:
  assumes "strips_to v u" "v \<notin> visited_urls s"
  shows "v \<in> visited_urls (state_of (crawl_page env st f u s))
    \<and> page_fetches (trace (state_of (crawl_page env st f u s))) = page_fetches (trace s) @ [u]"
proof (cases rule: crawl_page_effect [of u env st f s])
  case (raise e)
  with assms(1) show ?thesis by (simp add: strips_to_def)
next
  case (seen v')
  with assms strips_to_unique [OF assms(1) seen(1)] show ?thesis by simp
next
  case (new v' new)
  with strips_to_unique [OF assms(1) new(1)] show ?thesis by simp
qed

text \<open>
  Claim C4. In every crawl, after any number of passes of the main loop and also when
  an exception has ended it, at most one page fetch in the trace is of a URL whose
  fragment-stripped form is \<open>v\<close>. A URL taken from the frontier whose fragment-stripped
  form is visited is dropped and the state stays as it is; otherwise that form is in the
  visited set afterwards and exactly this one fetch is added. The two variants
  \<open>https://site.example/page#a\<close> and \<open>https://site.example/page#b\<close> strip to the same
  URL, so at most one of them is fetched.
\<close>

theorem page_fetched_at_most_once:
  "(\<forall>n popped r v.
      crawl_steps n env start_url download_folder (initial_state start_url w) = (popped, r) \<longrightarrow>
      length (filter (strips_to v) (page_fetches (trace (state_of r)))) \<le> 1)
   \<and> (\<forall>s u v. strips_to v u \<longrightarrow> v \<in> visited_urls s \<longrightarrow>
        crawl_page env start_url download_folder u s = Inr s)
   \<and> (\<forall>s u v. strips_to v u \<longrightarrow> v \<notin> visited_urls s \<longrightarrow>
        v \<in> visited_urls (state_of (crawl_page env start_url download_folder u s))
        \<and> page_fetches (trace (state_of (crawl_page env start_url download_folder u s))) =
            page_fetches (trace s) @ [u])
   \<and> strips_to ''https://site.example/page'' ''https://site.example/page#a''
   \<and> strips_to ''https://site.example/page'' ''https://site.example/page#b''"
proof (intro conjI allI impI)
  fix n popped r v
  assume "crawl_steps n env start_url download_folder (initial_state start_url w) = (popped, r)"
  with crawl_steps_fetches_ok [of n env start_url download_folder w]
  show "length (filter (strips_to v) (page_fetches (trace (state_of r)))) \<le> 1"
    by (simp add: fetches_ok_def)
next
  fix s :: "'a crawl_state" and u v
  assume "strips_to v u" "v \<in> visited_urls s"
  then show "crawl_page env start_url download_folder u s = Inr s"
    by (rule crawl_page_seen)
next
  fix s :: "'a crawl_state" and u v
  assume "strips_to v u" "v \<notin> visited_urls s"
  then show "v \<in> visited_urls (state_of (crawl_page env start_url download_folder u s))"
    using crawl_page_new by blast
next
  fix s :: "'a crawl_state" and u v
  assume "strips_to v u" "v \<notin> visited_urls s"
  then show "page_fetches (trace (state_of (crawl_page env start_url download_folder u s))) =
            page_fetches (trace s) @ [u]"
    using crawl_page_new by blast
next
  show "strips_to ''https://site.example/page'' ''https://site.example/page#a''"
    by code_simp
  show "strips_to ''https://site.example/page'' ''https://site.example/page#b''"
    by code_simp
qed


lemma fragment_run:
  "crawl_steps 4 (static_env fragment_site) ''https://site.example/'' ''pdf_downloads''
     (initial_state ''https://site.example/'' ()) =
   ([''https://site.example/'', ''https://site.example/page#a'', ''https://site.example/page#b''],
    Inr \<lparr>urls_to_visit = [],
         visited_urls = {''https://site.example/page'', ''https://site.example/''},
         downloaded_pdf_urls = {}, world = (),
         trace =
           [Crawling ''https://site.example/'', Sleep (1 / 2),
            Get ''https://site.example/'' False 15 (page ''page#a page#b''),
            Crawling ''https://site.example/page#a'', Sleep (1 / 2),
            Get ''https://site.example/page#a'' False 15 (page [])]\<rparr>)"
  by code_simp

theorem page_fetched_at_most_once_witness:
  "crawl_steps 4 (static_env fragment_site) ''https://site.example/'' ''pdf_downloads''
     (initial_state ''https://site.example/'' ()) =
   ([''https://site.example/'', ''https://site.example/page#a'', ''https://site.example/page#b''],
    Inr \<lparr>urls_to_visit = [],
         visited_urls = {''https://site.example/page'', ''https://site.example/''},
         downloaded_pdf_urls = {}, world = (),
         trace =
           [Crawling ''https://site.example/'', Sleep (1 / 2),
            Get ''https://site.example/'' False 15 (page ''page#a page#b''),
            Crawling ''https://site.example/page#a'', Sleep (1 / 2),
            Get ''https://site.example/page#a'' False 15 (page [])]\<rparr>)
   \<and> length (filter (strips_to ''https://site.example/page'')
        [''https://site.example/'', ''https://site.example/page#a'']) \<le> 1"
proof -
  note run = fragment_run
  from page_fetched_at_most_once [THEN conjunct1, rule_format, OF run,
      of "''https://site.example/page''"]
  have "length (filter (strips_to ''https://site.example/page'')
        [''https://site.example/'', ''https://site.example/page#a'']) \<le> 1"
    by (simp add: state_of_def)
  with run show ?thesis by blast
qed

lemma imy_run:
  "crawl_steps 4 (static_env imy_site) ''https://imy.test/tillsyner/'' ''pdf_downloads''
     (initial_state ''https://imy.test/tillsyner/'' ()) =
   ([''https://imy.test/tillsyner/'', ''https://imy.test/tillsyner/b'',
     ''https://imy.test/tillsyner/b?page=2''],
    Inr \<lparr>urls_to_visit = [],
         visited_urls = {''https://imy.test/tillsyner/b?page=2'', ''https://imy.test/tillsyner/b'',
                         ''https://imy.test/tillsyner/''},
         downloaded_pdf_urls = {''https://imy.test/files/report.pdf''},
         world = (),
         trace =
           [Crawling ''https://imy.test/tillsyner/'', Sleep (1 / 2),
            Get ''https://imy.test/tillsyner/'' False 15
              (page ''https://imy.test/tillsyner/b https://imy.test/files/report.pdf''),
            Found_PDF ''https://imy.test/tillsyner/'' ''https://imy.test/files/report.pdf'',
            Get ''https://imy.test/files/report.pdf'' True 30 (page []),
            Write_File ''https://imy.test/files/report.pdf'' ''pdf_downloads/report.pdf'' True,
            Crawling ''https://imy.test/tillsyner/b'', Sleep (1 / 2),
            Get ''https://imy.test/tillsyner/b'' False 15
              (page ''https://imy.test/tillsyner/ ?page=2 https://imy.test/files/report.pdf''),
            Crawling ''https://imy.test/tillsyner/b?page=2'', Sleep (1 / 2),
            Get ''https://imy.test/tillsyner/b?page=2'' False 15 (page [])]\<rparr>)"
  by code_simp

lemma process_absolute_url_downloaded:
  assumes "urldefrag a = Inr (v, frag)" "endswith (lower a) ''.pdf''" "a \<in> downloaded_pdf_urls s"
  shows "process_absolute_url env st f cur a s = Inr s"
  using assms by (simp add: process_absolute_url_def)

text \<open>
  Claim C6. In every crawl, after any number of passes of the main loop, a URL is in the
  downloaded set exactly when the trace has a file write of its download that went
  through; there is at most one such write, and no file write of that URL follows it. A
  PDF link that is in the downloaded set is skipped, the state stays as it is. A PDF
  link that is not in the set, because it is new or because its download failed before,
  is downloaded, and joins the set exactly when \<open>download_pdf\<close> returns \<open>True\<close>.
\<close>

theorem pdf_downloaded_once:
  "(\<forall>n popped r a.
      crawl_steps n env start_url download_folder (initial_state start_url w) = (popped, r) \<longrightarrow>
      (a \<in> downloaded_pdf_urls (state_of r) \<longleftrightarrow> successful_writes a (trace (state_of r)) \<noteq> [])
      \<and> length (successful_writes a (trace (state_of r))) \<le> 1
      \<and> successful_writes a (butlast (file_writes a (trace (state_of r)))) = [])
   \<and> (\<forall>s current_url a v frag.
        urldefrag a = Inr (v, frag) \<longrightarrow> endswith (lower a) ''.pdf'' \<longrightarrow>
        a \<in> downloaded_pdf_urls s \<longrightarrow>
        process_absolute_url env start_url download_folder current_url a s = Inr s)
   \<and> (\<forall>s current_url a v frag.
        urldefrag a = Inr (v, frag) \<longrightarrow> endswith (lower a) ''.pdf'' \<longrightarrow>
        a \<notin> downloaded_pdf_urls s \<longrightarrow>
        (\<exists>ok w1 tr1.
           download_pdf env a download_folder
             (world s, trace s @ [Found_PDF current_url a]) = (ok, w1, tr1)
           \<and> process_absolute_url env start_url download_folder current_url a s =
               Inr (s\<lparr>downloaded_pdf_urls :=
                         (if ok then insert a (downloaded_pdf_urls s)
                          else downloaded_pdf_urls s),
                      world := w1, trace := tr1\<rparr>)))"
proof (intro conjI allI impI)
  fix n popped r a
  assume run: "crawl_steps n env start_url download_folder (initial_state start_url w) = (popped, r)"
  with crawl_steps_downloads_ok [of n env start_url download_folder w]
  have ok: "downloads_ok (state_of r)" by simp
  then show "a \<in> downloaded_pdf_urls (state_of r) \<longleftrightarrow> successful_writes a (trace (state_of r)) \<noteq> []"
    by (simp add: downloads_ok_def)
  from ok show "length (successful_writes a (trace (state_of r))) \<le> 1"
    by (rule downloads_ok_once)
  from ok show "successful_writes a (butlast (file_writes a (trace (state_of r)))) = []"
    by (simp add: downloads_ok_def)
next
  fix s :: "'a crawl_state" and current_url a v frag
  assume "urldefrag a = Inr (v, frag)" "endswith (lower a) ''.pdf''" "a \<in> downloaded_pdf_urls s"
  then show "process_absolute_url env start_url download_folder current_url a s = Inr s"
    by (rule process_absolute_url_downloaded)
next
  fix s :: "'a crawl_state" and current_url a v frag
  assume a: "urldefrag a = Inr (v, frag)" "endswith (lower a) ''.pdf''" "a \<notin> downloaded_pdf_urls s"
  obtain ok w1 tr1 where d: "download_pdf env a download_folder
             (world s, trace s @ [Found_PDF current_url a]) = (ok, w1, tr1)"
    by (metis prod_cases3)
  from process_absolute_url_pdf [OF a d] d
  show "\<exists>ok w1 tr1.
           download_pdf env a download_folder
             (world s, trace s @ [Found_PDF current_url a]) = (ok, w1, tr1)
           \<and> process_absolute_url env start_url download_folder current_url a s =
               Inr (s\<lparr>downloaded_pdf_urls :=
                         (if ok then insert a (downloaded_pdf_urls s)
                          else downloaded_pdf_urls s),
                      world := w1, trace := tr1\<rparr>)"
    by blast
qed

theorem pdf_downloaded_once_witness:
  "''https://imy.test/files/report.pdf'' \<in> downloaded_pdf_urls (state_of (snd
      (crawl_steps 4 (static_env imy_site) ''https://imy.test/tillsyner/'' ''pdf_downloads''
        (initial_state ''https://imy.test/tillsyner/'' ()))))
   \<and> successful_writes ''https://imy.test/files/report.pdf'' (trace (state_of (snd
      (crawl_steps 4 (static_env imy_site) ''https://imy.test/tillsyner/'' ''pdf_downloads''
        (initial_state ''https://imy.test/tillsyner/'' ()))))) =
      [Write_File ''https://imy.test/files/report.pdf'' ''pdf_downloads/report.pdf'' True]
   \<and> file_writes ''https://imy.test/files/report.pdf'' (trace (state_of (snd
      (crawl_steps 4 (static_env imy_site) ''https://imy.test/tillsyner/'' ''pdf_downloads''
        (initial_state ''https://imy.test/tillsyner/'' ()))))) =
      [Write_File ''https://imy.test/files/report.pdf'' ''pdf_downloads/report.pdf'' True]"
proof -
  note run = imy_run
  from pdf_downloaded_once [THEN conjunct1, rule_format, OF run,
      of "''https://imy.test/files/report.pdf''"]
  have "''https://imy.test/files/report.pdf'' \<in> downloaded_pdf_urls (state_of (snd
      (crawl_steps 4 (static_env imy_site) ''https://imy.test/tillsyner/'' ''pdf_downloads''
        (initial_state ''https://imy.test/tillsyner/'' ()))))"
    unfolding run by (simp add: state_of_def)
  then show ?thesis
    unfolding run by (simp add: state_of_def)
qed

section \<open>The history of the frontier\<close>

text \<open>The URLs taken from the frontier followed by those still in it: every URL that was
  ever in the frontier, in the order of arrival.\<close>

lemma strips_to_visited_distinct:
  assumes "strips_to v a" "v \<notin> V" "strips_to v' b" "v' \<in> V"
  shows "a \<noteq> b"
  using assms strips_to_unique by blast

lemma state_of_simps [simp]:
  "state_of (Inr s) = s" "state_of (Inl (e, s)) = s"
  by (simp_all add: state_of_def)

lemma crawl_steps_history:
  assumes "distinct (P @ urls_to_visit s)"
    and "\<forall>x \<in> set P. \<exists>v. strips_to v x \<and> v \<in> visited_urls s"
    and "crawl_steps n env st f s = (popped, r)"
  shows "distinct (P @ popped @ urls_to_visit (state_of r))
    \<and> prefix (P @ urls_to_visit s) (P @ popped @ urls_to_visit (state_of r))
    \<and> (\<forall>s1. r = Inr s1 \<longrightarrow>
          (\<forall>x \<in> set (P @ popped). \<exists>v. strips_to v x \<and> v \<in> visited_urls s1))"
  using assms
proof (induction n arbitrary: s P popped r)
  case 0
  then show ?case by auto
next
  case (Suc n)
  show ?case
  proof (cases "urls_to_visit s")
    case Nil
    with Suc.prems show ?thesis by auto
  next
    case (Cons u rest)
    let ?s0 = "s\<lparr>urls_to_visit := rest\<rparr>"
    let ?r = "crawl_page env st f u ?s0"
    have d0: "distinct (P @ u # rest)" using Suc.prems(1) Cons by simp
    have step: "crawl_steps (Suc n) env st f s =
        (case ?r of Inl x \<Rightarrow> ([u], Inl x)
         | Inr s1 \<Rightarrow> (case crawl_steps n env st f s1 of (pp, r') \<Rightarrow> (u # pp, r')))"
      using Cons by simp
    show ?thesis
    proof (cases rule: crawl_page_effect [of u env st f ?s0])
      case (raise e)
      then have "popped = [u]" "r = Inl (e, ?s0)"
        using step Suc.prems(3) by simp_all
      with d0 Cons show ?thesis by simp
    next
      case (seen v)
      obtain pp where pp: "crawl_steps n env st f ?s0 = (pp, r)" "popped = u # pp"
        using step seen(3) Suc.prems(3) by (auto split: prod.splits)
      have "distinct ((P @ [u]) @ urls_to_visit ?s0)" using d0 by simp
      moreover have "\<forall>x \<in> set (P @ [u]). \<exists>v. strips_to v x \<and> v \<in> visited_urls ?s0"
        using Suc.prems(2) seen(1,2) by auto
      ultimately have "distinct ((P @ [u]) @ pp @ urls_to_visit (state_of r))
        \<and> prefix ((P @ [u]) @ urls_to_visit ?s0) ((P @ [u]) @ pp @ urls_to_visit (state_of r))
        \<and> (\<forall>s1. r = Inr s1 \<longrightarrow>
          (\<forall>x \<in> set ((P @ [u]) @ pp). \<exists>v. strips_to v x \<and> v \<in> visited_urls s1))"
        using pp(1) by (rule Suc.IH)
      then show ?thesis using pp(2) Cons by simp
    next
      case (new v new)
      let ?s' = "state_of ?r"
      have fresh: "a \<notin> set P \<and> a \<noteq> u \<and> a \<notin> set rest" if "a \<in> set new" for a
      proof -
        from new(7) [OF that] obtain v' where a: "a \<notin> set rest" "strips_to v' a"
          "v' \<notin> insert v (visited_urls s)"
          by auto
        have "a \<noteq> u" using a(2,3) new(1) strips_to_unique by auto
        moreover have "a \<notin> set P"
        proof
          assume "a \<in> set P"
          with Suc.prems(2) obtain v'' where "strips_to v'' a" "v'' \<in> visited_urls s"
            by blast
          with a(2,3) strips_to_unique show False by blast
        qed
        ultimately show ?thesis using a(1) by simp
      qed
      have d1: "distinct ((P @ [u]) @ urls_to_visit ?s')"
        using d0 new(5,6) fresh by auto
      have pre: "prefix (P @ u # rest) ((P @ [u]) @ urls_to_visit ?s')"
        using new(5) by simp
      show ?thesis
      proof (cases ?r)
        case (Inl x)
        then have "popped = [u]" "r = Inl x"
          using step Suc.prems(3) by simp_all
        with d1 pre Inl Cons show ?thesis by simp
      next
        case (Inr s1)
        then have s1: "?s' = s1" by (simp add: state_of_def)
        obtain pp where pp: "crawl_steps n env st f s1 = (pp, r)" "popped = u # pp"
          using step Inr Suc.prems(3) by (auto split: prod.splits)
        have "\<forall>x \<in> set (P @ [u]). \<exists>v. strips_to v x \<and> v \<in> visited_urls s1"
          using Suc.prems(2) new(1,3) s1 by auto
        with d1 s1 have "distinct ((P @ [u]) @ pp @ urls_to_visit (state_of r))
          \<and> prefix ((P @ [u]) @ urls_to_visit s1) ((P @ [u]) @ pp @ urls_to_visit (state_of r))
          \<and> (\<forall>s2. r = Inr s2 \<longrightarrow>
            (\<forall>x \<in> set ((P @ [u]) @ pp). \<exists>v. strips_to v x \<and> v \<in> visited_urls s2))"
          using pp(1) by (intro Suc.IH) simp_all
        moreover have "prefix (P @ u # rest) ((P @ [u]) @ urls_to_visit s1)"
          using pre s1 by simp
        ultimately show ?thesis using pp(2) Cons
          by (auto intro: prefix_order.trans)
      qed
    qed
  qed
qed


lemma crawl_steps_empty:
  "urls_to_visit s = [] \<Longrightarrow> crawl_steps n env st f s = ([], Inr s)"
  by (cases n) simp_all

lemma crawl_steps_add:
  "crawl_steps (m + k) env st f s =
     (case crawl_steps m env st f s of
        (p1, Inl x) \<Rightarrow> (p1, Inl x)
      | (p1, Inr s1) \<Rightarrow> (case crawl_steps k env st f s1 of (p2, r2) \<Rightarrow> (p1 @ p2, r2)))"
proof (induction m arbitrary: s)
  case 0
  then show ?case by simp
next
  case (Suc m)
  show ?case
  proof (cases "urls_to_visit s")
    case Nil
    then show ?thesis by (simp add: crawl_steps_empty)
  next
    case (Cons u rest)
    show ?thesis
    proof (cases "crawl_page env st f u (s\<lparr>urls_to_visit := rest\<rparr>)")
      case (Inl x)
      with Cons show ?thesis by simp
    next
      case (Inr s1)
      with Cons Suc.IH [of s1] show ?thesis
        by (simp split: prod.splits sum.splits)
    qed
  qed
qed

lemma crawl_steps_history_grows:
  assumes "m \<le> n"
    and "crawl_steps m env st f (initial_state st w) = (pm, rm)"
    and "crawl_steps n env st f (initial_state st w) = (pn, rn)"
  shows "prefix (pm @ urls_to_visit (state_of rm)) (pn @ urls_to_visit (state_of rn))"
proof -
  obtain k where n: "n = m + k" using assms(1) by (metis le_Suc_ex)
  show ?thesis
  proof (cases rm)
    case (Inl x)
    with assms(2,3) n crawl_steps_add [of m k env st f "initial_state st w"]
    show ?thesis by simp
  next
    case (Inr s1)
    obtain p2 r2 where k: "crawl_steps k env st f s1 = (p2, r2)"
      by (cases "crawl_steps k env st f s1")
    with Inr assms(2,3) n crawl_steps_add [of m k env st f "initial_state st w"]
    have pn: "pn = pm @ p2" "rn = r2" by simp_all
    from crawl_steps_history [of "[]" "initial_state st w" m env st f pm rm] assms(2) Inr
    have "distinct (pm @ urls_to_visit s1)"
      "\<forall>x \<in> set pm. \<exists>v. strips_to v x \<and> v \<in> visited_urls s1"
      by (simp_all add: initial_state_def)
    from crawl_steps_history [OF this k] pn Inr show ?thesis by simp
  qed
qed

text \<open>
  Claim C8. In every crawl, the URLs taken from the frontier so far followed by those
  still in it never hold a URL twice, so no URL is enqueued twice; and this history only
  grows at its end as the crawl goes on, so URLs leave the frontier in the order they
  came in. One pass of the main loop takes the head of the frontier and appends to its
  tail. A link is appended only if it is not in the frontier and its fragment-stripped
  form is in scope and not visited.
\<close>

theorem frontier_fifo_no_duplicates:
  "(\<forall>n popped r.
      crawl_steps n env start_url download_folder (initial_state start_url w) = (popped, r) \<longrightarrow>
      distinct (popped @ urls_to_visit (state_of r)))
   \<and> (\<forall>m n pm rm pn rn. m \<le> n \<longrightarrow>
        crawl_steps m env start_url download_folder (initial_state start_url w) = (pm, rm) \<longrightarrow>
        crawl_steps n env start_url download_folder (initial_state start_url w) = (pn, rn) \<longrightarrow>
        prefix (pm @ urls_to_visit (state_of rm)) (pn @ urls_to_visit (state_of rn)))
   \<and> (\<forall>s u rest. urls_to_visit s = u # rest \<longrightarrow>
        (\<exists>new. urls_to_visit (state_of (crawl_page env start_url download_folder u
                   (s\<lparr>urls_to_visit := rest\<rparr>))) = rest @ new))
   \<and> (\<forall>s current_url a.
        urls_to_visit (state_of (process_absolute_url env start_url download_folder current_url a s))
          = urls_to_visit s
        \<or> urls_to_visit (state_of (process_absolute_url env start_url download_folder current_url a s))
            = urls_to_visit s @ [a]
          \<and> a \<notin> set (urls_to_visit s)
          \<and> (\<exists>v. strips_to v a \<and> v \<notin> visited_urls s \<and> startswith v start_url))"
proof (intro conjI allI impI)
  fix n popped r
  assume "crawl_steps n env start_url download_folder (initial_state start_url w) = (popped, r)"
  from crawl_steps_history [of "[]" "initial_state start_url w", OF _ _ this]
  show "distinct (popped @ urls_to_visit (state_of r))"
    by (simp add: initial_state_def)
next
  fix m n pm rm pn rn
  assume "m \<le> n"
    "crawl_steps m env start_url download_folder (initial_state start_url w) = (pm, rm)"
    "crawl_steps n env start_url download_folder (initial_state start_url w) = (pn, rn)"
  then show "prefix (pm @ urls_to_visit (state_of rm)) (pn @ urls_to_visit (state_of rn))"
    by (rule crawl_steps_history_grows)
next
  fix s :: "'a crawl_state" and u rest
  assume "urls_to_visit s = u # rest"
  show "\<exists>new. urls_to_visit (state_of (crawl_page env start_url download_folder u
                   (s\<lparr>urls_to_visit := rest\<rparr>))) = rest @ new"
    by (cases rule: crawl_page_effect [of u env start_url download_folder "s\<lparr>urls_to_visit := rest\<rparr>"])
       simp_all
next
  fix s :: "'a crawl_state" and current_url a
  show "urls_to_visit (state_of (process_absolute_url env start_url download_folder current_url a s))
          = urls_to_visit s
        \<or> urls_to_visit (state_of (process_absolute_url env start_url download_folder current_url a s))
            = urls_to_visit s @ [a]
          \<and> a \<notin> set (urls_to_visit s)
          \<and> (\<exists>v. strips_to v a \<and> v \<notin> visited_urls s \<and> startswith v start_url)"
    by (rule process_absolute_url_frontier)
qed

theorem frontier_fifo_no_duplicates_witness:
  "crawl_steps 4 (static_env imy_site) ''https://imy.test/tillsyner/'' ''pdf_downloads''
     (initial_state ''https://imy.test/tillsyner/'' ()) =
   ([''https://imy.test/tillsyner/'', ''https://imy.test/tillsyner/b'',
     ''https://imy.test/tillsyner/b?page=2''],
    Inr \<lparr>urls_to_visit = [],
         visited_urls = {''https://imy.test/tillsyner/b?page=2'', ''https://imy.test/tillsyner/b'',
                         ''https://imy.test/tillsyner/''},
         downloaded_pdf_urls = {''https://imy.test/files/report.pdf''},
         world = (),
         trace =
           [Crawling ''https://imy.test/tillsyner/'', Sleep (1 / 2),
            Get ''https://imy.test/tillsyner/'' False 15
              (page ''https://imy.test/tillsyner/b https://imy.test/files/report.pdf''),
            Found_PDF ''https://imy.test/tillsyner/'' ''https://imy.test/files/report.pdf'',
            Get ''https://imy.test/files/report.pdf'' True 30 (page []),
            Write_File ''https://imy.test/files/report.pdf'' ''pdf_downloads/report.pdf'' True,
            Crawling ''https://imy.test/tillsyner/b'', Sleep (1 / 2),
            Get ''https://imy.test/tillsyner/b'' False 15
              (page ''https://imy.test/tillsyner/ ?page=2 https://imy.test/files/report.pdf''),
            Crawling ''https://imy.test/tillsyner/b?page=2'', Sleep (1 / 2),
            Get ''https://imy.test/tillsyner/b?page=2'' False 15 (page [])]\<rparr>)
   \<and> distinct [''https://imy.test/tillsyner/'', ''https://imy.test/tillsyner/b'',
     ''https://imy.test/tillsyner/b?page=2'']
   \<and> prefix [''https://imy.test/tillsyner/'']
        [''https://imy.test/tillsyner/'', ''https://imy.test/tillsyner/b'',
         ''https://imy.test/tillsyner/b?page=2'']"
proof -
  note run = imy_run
  have zero: "crawl_steps 0 (static_env imy_site) ''https://imy.test/tillsyner/'' ''pdf_downloads''
     (initial_state ''https://imy.test/tillsyner/'' ()) =
     ([], Inr (initial_state ''https://imy.test/tillsyner/'' ()))"
    by simp
  from frontier_fifo_no_duplicates [THEN conjunct1, rule_format, OF run]
  have d: "distinct [''https://imy.test/tillsyner/'', ''https://imy.test/tillsyner/b'',
     ''https://imy.test/tillsyner/b?page=2'']"
    by simp
  from frontier_fifo_no_duplicates [THEN conjunct2, THEN conjunct1, rule_format, OF _ zero run]
  have p: "prefix [''https://imy.test/tillsyner/'']
        [''https://imy.test/tillsyner/'', ''https://imy.test/tillsyner/b'',
         ''https://imy.test/tillsyner/b?page=2'']"
    by (simp add: initial_state_def)
  from run d p show ?thesis by blast
qed

section \<open>Termination of the main loop\<close>
















end
